theory Spec2Isabelle
  imports Main "HOL-Library.Word" "HOL-Library.Multiset" "HOL-Library.List_Lexorder"
begin

unbundle bit_operations_syntax

section \<open>Code generator: definitions\<close>

text \<open>
  The code generator (package compile) keeps the names of the local variables and the
  constant values of the function being compiled in two growing slices of its
  \<open>ParamSpec\<close>. Instructions refer to a local or a constant by an 8-bit index.
  A Go panic is a value of the type \<open>panic\<close>.
\<close>

datatype panic =
    TooManyLocals       \<comment> \<open>"too many local variables (>255)"\<close>
  | TooManyConstants    \<comment> \<open>"too many constants (>255)"\<close>
  | VerifyFailed        \<comment> \<open>verify.That on a false condition\<close>
  | InvalidLvalue       \<comment> \<open>"invalid lvalue: ..."\<close>
  | IndexOutOfRange     \<comment> \<open>an index beyond the length of a string or slice\<close>

text \<open>The argument specification of a call (\<open>ArgSpec\<close> of the package runtime, which is
  not among the sources), with the fields that the code generator uses.\<close>

record 'v ArgSpec =
  Nargs :: "8 word"
  Each :: "8 word"
  Spec :: "8 word list"
  as_Names :: "'v list"

record 'v cgen =
  Names :: "string list"
  Values :: "'v list"
  code :: "8 word list"
  argspecs :: "'v ArgSpec list"

text \<open>What the code generator takes from the packages runtime and op, which are not
  among the sources: the values with an instruction of their own, \<open>SmiToInt\<close>, the
  conversion \<open>SuStr\<close> of a string to a value, \<open>GlobalNum\<close>, the table \<open>StdArgSpecs\<close> with
  the equality of argument specifications, the indexes \<open>AsEach\<close> and \<open>AsEach1\<close>, and the
  codes of the instructions. They are the fields of a parameter \<open>rt\<close>.\<close>

record 'v runtime =
  rtTrue :: 'v
  rtFalse :: 'v
  rtZero :: 'v
  rtOne :: 'v
  rtEmptyStr :: 'v
  SmiToInt :: "'v \<Rightarrow> int option"
  SuStr :: "string \<Rightarrow> 'v"
  GlobalNum :: "string \<Rightarrow> int"
  StdArgSpecs :: "'v ArgSpec list"
  ArgSpec_Equal :: "'v ArgSpec \<Rightarrow> 'v ArgSpec \<Rightarrow> bool"
  AsEach :: int
  AsEach1 :: int
  opTHIS :: "8 word"
  opLOAD :: "8 word"
  opDYLOAD :: "8 word"
  opSTORE :: "8 word"
  opGLOBAL :: "8 word"
  opVALUE :: "8 word"
  opTRUE :: "8 word"
  opFALSE :: "8 word"
  opZERO :: "8 word"
  opONE :: "8 word"
  opEMPTYSTR :: "8 word"
  opINT :: "8 word"
  opGET :: "8 word"
  opPUT :: "8 word"

text \<open>The loop \<open>for i, s2 := range xs { if s == s2 { return i } }\<close>: the first index
  holding the element, if there is one.\<close>

fun index_from :: "nat \<Rightarrow> 'a \<Rightarrow> 'a list \<Rightarrow> nat option" where
  "index_from i s [] = None"
| "index_from i s (s2 # xs) = (if s = s2 then Some i else index_from (Suc i) s xs)"

definition MaxUint8 :: nat where
  "MaxUint8 = 255"

text \<open>\<open>func (cg *cgen) name(s string) int\<close>\<close>

definition name :: "'v cgen \<Rightarrow> string \<Rightarrow> panic + (nat \<times> 'v cgen)" where
  "name cg s =
     (case index_from 0 s (Names cg) of
        Some i \<Rightarrow> Inr (i, cg)
      | None \<Rightarrow>
          (let i = length (Names cg) in
           if i > MaxUint8 then Inl TooManyLocals
           else Inr (i, cg\<lparr>Names := Names cg @ [s]\<rparr>)))"

text \<open>\<open>func (cg *cgen) value(v Value) int\<close>; \<open>v.Equal(v2)\<close> is equality of the
  value type.\<close>

definition "value" :: "'v cgen \<Rightarrow> 'v \<Rightarrow> panic + (nat \<times> 'v cgen)" where
  "value cg v =
     (case index_from 0 v (Values cg) of
        Some i \<Rightarrow> Inr (i, cg)
      | None \<Rightarrow>
          (let i = length (Values cg) in
           if i > MaxUint8 then Inl TooManyConstants
           else Inr (i, cg\<lparr>Values := Values cg @ [v]\<rparr>)))"

text \<open>\<open>emit\<close> appends bytes to the code. \<open>emitUint8\<close>, \<open>emitInt16\<close> and \<open>emitUint16\<close>
  verify their operand first (\<open>verify.That(0 <= i && i < math.MaxUint8)\<close> and so on) and
  then emit its bytes; \<open>i>>8\<close> on an \<open>int\<close> is the division by 256 that rounds down.\<close>

definition emit :: "'v cgen \<Rightarrow> 8 word list \<Rightarrow> 'v cgen" where
  "emit cg b = cg\<lparr>code := code cg @ b\<rparr>"

definition emitUint8 :: "'v cgen \<Rightarrow> 8 word \<Rightarrow> int \<Rightarrow> panic + 'v cgen" where
  "emitUint8 cg opc i =
     (if 0 \<le> i \<and> i < int MaxUint8 then Inr (emit cg [opc, of_int i]) else Inl VerifyFailed)"


definition emitUint16 :: "'v cgen \<Rightarrow> 8 word \<Rightarrow> int \<Rightarrow> panic + 'v cgen" where
  "emitUint16 cg opc i =
     (if 0 \<le> i \<and> i < 65535 then Inr (emit cg [opc, of_int (i div 256), of_int i])
      else Inl VerifyFailed)"


text \<open>\<open>func isLocal(s string) bool\<close>; \<open>s[0]\<close> panics on the empty string.\<close>

definition isLocal :: "string \<Rightarrow> panic + bool" where
  "isLocal s =
     (case s of
        [] \<Rightarrow> Inl IndexOutOfRange
      | c # cs \<Rightarrow> Inr ((97 \<le> (of_char c :: nat) \<and> (of_char c :: nat) \<le> 122) \<or> c = CHR ''_''))"

text \<open>\<open>func (cg *cgen) identifier(node *ast.Ident)\<close>, on the name of the node.\<close>

definition "identifier" :: "'v runtime \<Rightarrow> 'v cgen \<Rightarrow> string \<Rightarrow> panic + 'v cgen" where
  "identifier rt cg nm =
     (if nm = ''this'' then Inr (emit cg [opTHIS rt])
      else
        (case isLocal nm of
           Inl e \<Rightarrow> Inl e
         | Inr True \<Rightarrow>
             (case name cg nm of
                Inl e \<Rightarrow> Inl e
              | Inr (i, cg') \<Rightarrow>
                  if hd nm = CHR ''_'' then emitUint8 cg' (opDYLOAD rt) (int i)
                  else emitUint8 cg' (opLOAD rt) (int i))
         | Inr False \<Rightarrow> emitUint16 cg (opGLOBAL rt) (GlobalNum rt nm)))"






















section \<open>Hash array mapped trie: definitions\<close>

text \<open>
  The hash array mapped trie of \<open>genny/hamt/hamt.go\<close>. Nodes are reached through
  pointers and are mutated in place when they belong to the current generation, so the
  model keeps an explicit heap: a list of nodes, a pointer being an index into it and
  \<open>nil\<close> being \<open>None\<close>. Allocation appends to the heap. The slices \<open>vals\<close> and
  \<open>ptrs\<close> of a node are never shared between nodes (\<open>dup\<close> copies both), so they are
  lists held in the node. The generic parameters \<open>Item\<close> and \<open>KeyType\<close> are the type
  variables \<open>'i\<close> and \<open>'k\<close>; \<open>ItemKey\<close> and \<open>ItemHash\<close> are the parameters \<open>K\<close> and
  \<open>H\<close> of the operations. A Go panic (index out of range, nil dereference, a failed
  assertion, a negative shift count) is the result \<open>None\<close>.
\<close>

type_synonym addr = nat

record 'i nodeItem =
  generation :: "32 word"
  bmVal :: "32 word"
  bmPtr :: "32 word"
  vals :: "'i list"
  ptrs :: "addr list"

type_synonym 'i heap = "'i nodeItem list"

record ItemHamt =
  root :: "addr option"
  mutable :: bool
  ht_generation :: "32 word"

definition bitsPerItemNode :: nat where
  "bitsPerItemNode = 5"

definition maskItem :: "32 word" where
  "maskItem = push_bit bitsPerItemNode 1 - 1"

text \<open>\<open>bits.OnesCount32\<close> and \<open>bits.LeadingZeros32\<close> of the Go library.\<close>

definition OnesCount32 :: "32 word \<Rightarrow> nat" where
  "OnesCount32 w = length (filter (bit w) [0..<32])"

definition LeadingZeros32 :: "32 word \<Rightarrow> nat" where
  "LeadingZeros32 w = length (takeWhile (\<lambda>n. \<not> bit w n) (rev [0..<32]))"

text \<open>\<open>func (*nodeItem) bit(hash uint32, shift int) uint32\<close>:
  \<open>1 << ((hash >> shift) & maskItem)\<close>.\<close>

definition node_bit :: "32 word \<Rightarrow> nat \<Rightarrow> 32 word" where
  "node_bit hash shift = push_bit (unat (drop_bit shift hash AND maskItem)) 1"

text \<open>\<open>n &^ (1 << (31 - bits.LeadingZeros32(n)))\<close>; for \<open>n = 0\<close> the shift count is
  negative, which panics.\<close>

definition clearHighestOneBit :: "32 word \<Rightarrow> 32 word option" where
  "clearHighestOneBit n =
     (if LeadingZeros32 n > 31 then None
      else Some (n AND NOT (push_bit (31 - LeadingZeros32 n) 1)))"

text \<open>Reading a node through a pointer, and \<open>func (nd *nodeItem) dup() *nodeItem\<close>.\<close>

definition deref :: "'i heap \<Rightarrow> addr \<Rightarrow> 'i nodeItem option" where
  "deref h a = (if a < length h then Some (h ! a) else None)"

definition dup :: "'i heap \<Rightarrow> addr \<Rightarrow> ('i heap \<times> addr) option" where
  "dup h a = (case deref h a of None \<Rightarrow> None | Some nd \<Rightarrow> Some (h @ [nd], length h))"

text \<open>The first statement of \<open>with\<close>, \<open>without\<close> and \<open>pullUp\<close>:
  \<open>if nd.generation != gen { nd = nd.dup(); nd.generation = gen }\<close>.\<close>

definition path_copy :: "'i heap \<Rightarrow> 32 word \<Rightarrow> addr \<Rightarrow> ('i heap \<times> addr) option" where
  "path_copy h gen a =
     (case deref h a of
        None \<Rightarrow> None
      | Some nd \<Rightarrow>
          if generation nd \<noteq> gen then
            (case dup h a of
               None \<Rightarrow> None
             | Some (h1, a1) \<Rightarrow> Some (h1[a1 := (h1 ! a1)\<lparr>generation := gen\<rparr>], a1))
          else Some (h, a))"

text \<open>The linear search of \<open>with\<close> in an overflow node: update the first item with
  the key, or append.\<close>

fun overflow_put :: "('i \<Rightarrow> 'k) \<Rightarrow> 'i \<Rightarrow> 'k \<Rightarrow> 'i list \<Rightarrow> 'i list" where
  "overflow_put K item key [] = [item]"
| "overflow_put K item key (v # vs) =
     (if K v = key then item # vs else v # overflow_put K item key vs)"

text \<open>\<open>func (nd *nodeItem) with(gen uint32, item Item, key KeyType, hash uint32, shift int)
  *nodeItem\<close>. It returns the heap and the pointer that \<open>with\<close> returns. After a
  recursive call the node \<open>nd\<close> is read again from the heap the call returns.\<close>

function with_item ::
  "('i \<Rightarrow> 'k) \<Rightarrow> 'i heap \<Rightarrow> addr \<Rightarrow> 32 word \<Rightarrow> 'i \<Rightarrow> 'k \<Rightarrow> 32 word \<Rightarrow> nat \<Rightarrow> ('i heap \<times> addr) option"
where
  "with_item K h0 a0 gen item key hash shift =
     (case path_copy h0 gen a0 of
        None \<Rightarrow> None
      | Some (h, a) \<Rightarrow>
          let nd = h ! a in
          if shift \<ge> 32 then
            Some (h[a := nd\<lparr>vals := overflow_put K item key (vals nd)\<rparr>], a)
          else
            let b = node_bit hash shift;
                iv = OnesCount32 (bmVal nd AND (b - 1))
            in
            if bmVal nd AND b = 0 then
              (if iv \<le> length (vals nd) then
                 Some (h[a := nd\<lparr>bmVal := bmVal nd OR b,
                                   vals := take iv (vals nd) @ item # drop iv (vals nd)\<rparr>], a)
               else None)
            else if \<not> iv < length (vals nd) then None
            else if K (vals nd ! iv) = key then
              Some (h[a := nd\<lparr>vals := (vals nd)[iv := item]\<rparr>], a)
            else
              let ip = OnesCount32 (bmPtr nd AND (b - 1)) in
              if bmPtr nd AND b \<noteq> 0 then
                (if \<not> ip < length (ptrs nd) then None
                 else
                   (case with_item K h (ptrs nd ! ip) gen item key hash (shift + bitsPerItemNode) of
                      None \<Rightarrow> None
                    | Some (h1, c) \<Rightarrow>
                        (case deref h1 a of
                           None \<Rightarrow> None
                         | Some nd1 \<Rightarrow>
                             if ip < length (ptrs nd1) then
                               Some (h1[a := nd1\<lparr>ptrs := (ptrs nd1)[ip := c]\<rparr>], a)
                             else None)))
              else
                (case with_item K
                        (h @ [\<lparr>generation = gen, bmVal = 0, bmPtr = 0, vals = [], ptrs = []\<rparr>])
                        (length h) gen item key hash (shift + bitsPerItemNode) of
                   None \<Rightarrow> None
                 | Some (h1, c) \<Rightarrow>
                     (case deref h1 a of
                        None \<Rightarrow> None
                      | Some nd1 \<Rightarrow>
                          if ip \<le> length (ptrs nd1) then
                            Some (h1[a := nd1\<lparr>ptrs := take ip (ptrs nd1) @ c # drop ip (ptrs nd1),
                                               bmPtr := bmPtr nd1 OR b\<rparr>], a)
                          else None)))"
  by pat_completeness auto

termination
  by (relation "measure (\<lambda>(K, h0, a0, gen, item, key, hash, shift). 40 - shift)")
     (auto simp: bitsPerItemNode_def)

declare with_item.simps [simp del]

text \<open>\<open>func (nd *nodeItem) pullUp(gen uint32) (*nodeItem, Item)\<close>\<close>

partial_function (option) pullUp ::
  "'i heap \<Rightarrow> addr \<Rightarrow> 32 word \<Rightarrow> ('i heap \<times> addr option \<times> 'i) option"
where
  "pullUp h0 a0 gen =
     (case path_copy h0 gen a0 of
        None \<Rightarrow> None
      | Some (h, a) \<Rightarrow>
          let nd = h ! a in
          if bmPtr nd \<noteq> 0 then
            (if bmVal nd = 0 \<or> ptrs nd = [] then None
             else
               let ip = length (ptrs nd) - 1 in
               Option.bind (pullUp h (ptrs nd ! ip) gen) (\<lambda>(h1, child, item).
                 (case deref h1 a of
                    None \<Rightarrow> None
                  | Some nd1 \<Rightarrow>
                      (case child of
                         Some c \<Rightarrow>
                           if ip < length (ptrs nd1) then
                             Some (h1[a := nd1\<lparr>ptrs := (ptrs nd1)[ip := c]\<rparr>], Some a, item)
                           else None
                       | None \<Rightarrow>
                           if ip \<le> length (ptrs nd1) then
                             (case clearHighestOneBit (bmPtr nd1) of
                                None \<Rightarrow> None
                              | Some bm \<Rightarrow>
                                  Some (h1[a := nd1\<lparr>ptrs := take ip (ptrs nd1), bmPtr := bm\<rparr>],
                                        Some a, item))
                           else None))))
          else if vals nd = [] then None
          else
            let iv = length (vals nd) - 1;
                item = vals nd ! iv
            in
            if iv = 0 then Some (h, None, item)
            else if bmVal nd \<noteq> 0 then
              (case clearHighestOneBit (bmVal nd) of
                 None \<Rightarrow> None
               | Some bm \<Rightarrow>
                   Some (h[a := nd\<lparr>vals := take iv (vals nd), bmVal := bm\<rparr>], Some a, item))
            else Some (h[a := nd\<lparr>vals := take iv (vals nd)\<rparr>], Some a, item))"

text \<open>The index of the first element of a slice that satisfies \<open>p\<close>.\<close>

fun index_where :: "('i \<Rightarrow> bool) \<Rightarrow> 'i list \<Rightarrow> nat option" where
  "index_where p [] = None"
| "index_where p (v # vs) = (if p v then Some 0 else map_option Suc (index_where p vs))"

text \<open>\<open>func (nd *nodeItem) without(gen uint32, key KeyType, hash uint32, shift int)
  (*nodeItem, bool)\<close>\<close>

function without ::
  "('i \<Rightarrow> 'k) \<Rightarrow> 'i heap \<Rightarrow> addr \<Rightarrow> 32 word \<Rightarrow> 'k \<Rightarrow> 32 word \<Rightarrow> nat
     \<Rightarrow> ('i heap \<times> addr option \<times> bool) option"
where
  "without K h0 a0 gen key hash shift =
     (case path_copy h0 gen a0 of
        None \<Rightarrow> None
      | Some (h, a) \<Rightarrow>
          let nd = h ! a in
          if shift \<ge> 32 then
            (case index_where (\<lambda>v. K v = key) (vals nd) of
               Some i \<Rightarrow>
                 let vs = butlast ((vals nd)[i := last (vals nd)]) in
                 Some (h[a := nd\<lparr>vals := vs\<rparr>], if vs = [] then None else Some a, True)
             | None \<Rightarrow> Some (h, Some a, False))
          else
            let b = node_bit hash shift;
                iv = OnesCount32 (bmVal nd AND (b - 1))
            in
            if bmVal nd AND b \<noteq> 0 \<and> \<not> iv < length (vals nd) then None
            else if bmVal nd AND b \<noteq> 0 \<and> K (vals nd ! iv) = key then
              (if bmPtr nd AND b = 0 then
                 let nd' = nd\<lparr>bmVal := bmVal nd AND NOT b,
                               vals := take iv (vals nd) @ drop (Suc iv) (vals nd)\<rparr>
                 in Some (h[a := nd'],
                          if bmVal nd' = 0 \<and> bmPtr nd' = 0 then None else Some a, True)
               else
                 let ip = OnesCount32 (bmPtr nd AND (b - 1)) in
                 if \<not> ip < length (ptrs nd) then None
                 else
                   (case pullUp h (ptrs nd ! ip) gen of
                      None \<Rightarrow> None
                    | Some (h1, child, item) \<Rightarrow>
                        (case deref h1 a of
                           None \<Rightarrow> None
                         | Some nd1 \<Rightarrow>
                             if \<not> iv < length (vals nd1) \<or> \<not> ip < length (ptrs nd1) then None
                             else
                               let nd2 = nd1\<lparr>vals := (vals nd1)[iv := item]\<rparr> in
                               (case child of
                                  Some c \<Rightarrow>
                                    Some (h1[a := nd2\<lparr>ptrs := (ptrs nd2)[ip := c]\<rparr>], Some a, True)
                                | None \<Rightarrow>
                                    Some (h1[a := nd2\<lparr>bmPtr := bmPtr nd2 AND NOT b,
                                                       ptrs := take ip (ptrs nd2) @ drop (Suc ip) (ptrs nd2)\<rparr>],
                                          Some a, True)))))
            else if bmPtr nd AND b = 0 then Some (h, Some a, False)
            else
              let ip = OnesCount32 (bmPtr nd AND (b - 1)) in
              if \<not> ip < length (ptrs nd) then None
              else
                (case without K h (ptrs nd ! ip) gen key hash (shift + bitsPerItemNode) of
                   None \<Rightarrow> None
                 | Some (h1, child, ok) \<Rightarrow>
                     (case deref h1 a of
                        None \<Rightarrow> None
                      | Some nd1 \<Rightarrow>
                          if \<not> ip < length (ptrs nd1) then None
                          else
                            (case child of
                               Some c \<Rightarrow>
                                 Some (h1[a := nd1\<lparr>ptrs := (ptrs nd1)[ip := c]\<rparr>], Some a, ok)
                             | None \<Rightarrow>
                                 Some (h1[a := nd1\<lparr>bmPtr := bmPtr nd1 AND NOT b,
                                                    ptrs := take ip (ptrs nd1) @ drop (Suc ip) (ptrs nd1)\<rparr>],
                                       Some a, ok)))))"
  by pat_completeness auto

termination
  by (relation "measure (\<lambda>(K, h0, a0, gen, key, hash, shift). 40 - shift)")
     (auto simp: bitsPerItemNode_def)

declare without.simps [simp del]

text \<open>The loop of \<open>func (ht ItemHamt) get(key KeyType) *Item\<close>, one call for each node
  on the path; below the last level the node is an overflow node, searched linearly.
  The result \<open>Some None\<close> is the \<open>nil\<close> for a key that is not found.\<close>

function get_loop ::
  "('i \<Rightarrow> 'k) \<Rightarrow> 'i heap \<Rightarrow> addr \<Rightarrow> 'k \<Rightarrow> 32 word \<Rightarrow> nat \<Rightarrow> 'i option option"
where
  "get_loop K h a key hash shift =
     (case deref h a of
        None \<Rightarrow> None
      | Some nd \<Rightarrow>
          if shift < 32 then
            let b = node_bit hash shift;
                iv = OnesCount32 (bmVal nd AND (b - 1))
            in
            if bmVal nd AND b \<noteq> 0 \<and> \<not> iv < length (vals nd) then None
            else if bmVal nd AND b \<noteq> 0 \<and> K (vals nd ! iv) = key then Some (Some (vals nd ! iv))
            else if bmPtr nd AND b = 0 then Some None
            else
              let ip = OnesCount32 (bmPtr nd AND (b - 1)) in
              if \<not> ip < length (ptrs nd) then None
              else get_loop K h (ptrs nd ! ip) key hash (shift + bitsPerItemNode)
          else Some (find (\<lambda>v. K v = key) (vals nd)))"
  by pat_completeness auto

termination
  by (relation "measure (\<lambda>(K, h, a, key, hash, shift). 40 - shift)")
     (auto simp: bitsPerItemNode_def)

declare get_loop.simps [simp del]

definition Get ::
  "('i \<Rightarrow> 'k) \<Rightarrow> ('k \<Rightarrow> 32 word) \<Rightarrow> 'i heap \<Rightarrow> ItemHamt \<Rightarrow> 'k \<Rightarrow> 'i option option" where
  "Get K H h ht key =
     (case root ht of
        None \<Rightarrow> Some None
      | Some a \<Rightarrow> get_loop K h a key (H key) 0)"

text \<open>\<open>func (ht ItemHamt) Mutable() ItemHamt\<close>. The addition \<open>ht.generation + 1\<close> is
  an addition of \<open>uint32\<close> and wraps.\<close>

definition Mutable :: "'i heap \<Rightarrow> ItemHamt \<Rightarrow> ('i heap \<times> ItemHamt) option" where
  "Mutable h ht =
     (let gen = ht_generation ht + 1;
          (h0, nd) = (case root ht of
                        None \<Rightarrow> (h @ [\<lparr>generation = gen, bmVal = 0, bmPtr = 0, vals = [], ptrs = []\<rparr>],
                                   length h)
                      | Some a \<Rightarrow> (h, a))
      in case dup h0 nd of
           None \<Rightarrow> None
         | Some (h1, nd1) \<Rightarrow>
             Some (h1[nd1 := (h1 ! nd1)\<lparr>generation := gen\<rparr>],
                   \<lparr>root = Some nd1, mutable = True, ht_generation = gen\<rparr>))"

text \<open>\<open>Put\<close> and \<open>Delete\<close> panic on a handle that is not mutable; they call \<open>with\<close>
  and \<open>without\<close> on the root and drop the node these return.\<close>

definition Put ::
  "('i \<Rightarrow> 'k) \<Rightarrow> ('k \<Rightarrow> 32 word) \<Rightarrow> 'i heap \<Rightarrow> ItemHamt \<Rightarrow> 'i \<Rightarrow> 'i heap option" where
  "Put K H h ht item =
     (if \<not> mutable ht then None
      else case root ht of
             None \<Rightarrow> None
           | Some r \<Rightarrow>
               map_option fst (with_item K h r (ht_generation ht) item (K item) (H (K item)) 0))"

definition Freeze :: "ItemHamt \<Rightarrow> ItemHamt" where
  "Freeze ht = \<lparr>root = root ht, mutable = False, ht_generation = ht_generation ht\<rparr>"

definition Delete ::
  "('i \<Rightarrow> 'k) \<Rightarrow> ('k \<Rightarrow> 32 word) \<Rightarrow> 'i heap \<Rightarrow> ItemHamt \<Rightarrow> 'k \<Rightarrow> ('i heap \<times> bool) option" where
  "Delete K H h ht key =
     (if \<not> mutable ht then None
      else case root ht of
             None \<Rightarrow> None
           | Some r \<Rightarrow>
               map_option (\<lambda>(h', nd, ok). (h', ok)) (without K h r (ht_generation ht) key (H key) 0))"

text \<open>\<open>func (nd *nodeItem) forEach(fn func(Item))\<close>, with the pending nodes in a
  list; the result is the sequence of the items handed to \<open>fn\<close>.\<close>

partial_function (option) forEach :: "'i heap \<Rightarrow> addr list \<Rightarrow> 'i list option" where
  "forEach h todo =
     (case todo of
        [] \<Rightarrow> Some []
      | a # rest \<Rightarrow>
          (case deref h a of
             None \<Rightarrow> None
           | Some nd \<Rightarrow> Option.bind (forEach h (ptrs nd @ rest)) (\<lambda>r. Some (vals nd @ r))))"

definition ForEach :: "'i heap \<Rightarrow> ItemHamt \<Rightarrow> 'i list option" where
  "ForEach h ht = (case root ht of None \<Rightarrow> Some [] | Some r \<Rightarrow> forEach h [r])"

definition chunk :: "32 word \<Rightarrow> nat \<Rightarrow> nat" where
  "chunk hash shift = unat (drop_bit shift hash AND maskItem)"

definition slots :: "32 word \<Rightarrow> nat list" where
  "slots w = filter (bit w) [0..<32]"

definition lo :: "32 word \<Rightarrow> nat \<Rightarrow> nat list" where "lo w p = filter (bit w) [0..<p]"

definition hi :: "32 word \<Rightarrow> nat \<Rightarrow> nat list" where "hi w p = filter (bit w) [Suc p..<32]"

datatype 'i atree = AT (addr: nat) (node: "'i nodeItem") (kids: "'i atree list")

fun addrs :: "'i atree \<Rightarrow> nat list" where
  "addrs (AT a nd ks) = a # concat (map addrs ks)"

fun gaddrs :: "32 word \<Rightarrow> 'i atree \<Rightarrow> nat list" where
  "gaddrs G (AT a nd ks) = (if generation nd = G then [a] else []) @ concat (map (gaddrs G) ks)"

fun items :: "'i atree \<Rightarrow> 'i list" where
  "items (AT a nd ks) = vals nd @ concat (map items ks)"

fun repr :: "'i heap \<Rightarrow> 'i atree \<Rightarrow> bool" where
  "repr h (AT a nd ks) \<longleftrightarrow>
     a < length h \<and> h ! a = nd \<and> ptrs nd = map addr ks \<and> (\<forall>k\<in>set ks. repr h k)"

fun wf_tree :: "('i \<Rightarrow> 'k) \<Rightarrow> ('k \<Rightarrow> 32 word) \<Rightarrow> nat \<Rightarrow> (32 word \<Rightarrow> bool) \<Rightarrow> 'i atree \<Rightarrow> bool" where
  "wf_tree K H s P (AT a nd ks) \<longleftrightarrow>
     (\<forall>v\<in>set (vals nd). P (H (K v))) \<and>
     (if s \<ge> 32 then bmVal nd = 0 \<and> bmPtr nd = 0 \<and> ks = []
      else map (\<lambda>v. chunk (H (K v)) s) (vals nd) = slots (bmVal nd)
         \<and> set (slots (bmPtr nd)) \<subseteq> set (slots (bmVal nd))
         \<and> list_all2 (\<lambda>p k. wf_tree K H (s + 5) (\<lambda>x. P x \<and> chunk x s = p) k \<and> vals (node k) \<noteq> [])
              (slots (bmPtr nd)) ks)"

abbreviation kidR ::
  "('i \<Rightarrow> 'k) \<Rightarrow> ('k \<Rightarrow> 32 word) \<Rightarrow> nat \<Rightarrow> (32 word \<Rightarrow> bool) \<Rightarrow> nat \<Rightarrow> 'i atree \<Rightarrow> bool" where
  "kidR K H s P \<equiv> (\<lambda>p k. wf_tree K H (s + 5) (\<lambda>x. P x \<and> chunk x s = p) k \<and> vals (node k) \<noteq> [])"

definition grows :: "32 word \<Rightarrow> 'i heap \<Rightarrow> 'i atree \<Rightarrow> 'i heap \<Rightarrow> 'i atree \<Rightarrow> bool" where
  "grows G h t h' t' \<longleftrightarrow>
     length h \<le> length h' \<and>
     (\<forall>b<length h. b \<notin> set (gaddrs G t) \<longrightarrow> h' ! b = h ! b) \<and>
     set (addrs t') \<subseteq> set (addrs t) \<union> {length h..<length h'} \<and>
     set (gaddrs G t') \<subseteq> set (gaddrs G t) \<union> {length h..<length h'} \<and>
     (generation (node t) = G \<longrightarrow> addr t' = addr t) \<and>
     generation (node t') = G \<and> repr h' t' \<and> distinct (gaddrs G t')"

datatype ('i, 'k) hamt_op = PutOp 'i | DeleteOp 'k

fun run_ops ::
  "('i \<Rightarrow> 'k) \<Rightarrow> ('k \<Rightarrow> 32 word) \<Rightarrow> 'i heap \<Rightarrow> ItemHamt \<Rightarrow> ('i, 'k) hamt_op list \<Rightarrow> 'i heap option" where
  "run_ops K H h ht [] = Some h"
| "run_ops K H h ht (PutOp x # ops) =
     (case Put K H h ht x of None \<Rightarrow> None | Some h' \<Rightarrow> run_ops K H h' ht ops)"
| "run_ops K H h ht (DeleteOp k # ops) =
     (case Delete K H h ht k of None \<Rightarrow> None | Some (h', ok) \<Rightarrow> run_ops K H h' ht ops)"

fun last_put :: "('i \<Rightarrow> 'k) \<Rightarrow> ('i, 'k) hamt_op list \<Rightarrow> ('k \<rightharpoonup> 'i) \<Rightarrow> ('k \<rightharpoonup> 'i)" where
  "last_put K [] m = m"
| "last_put K (PutOp x # ops) m = last_put K ops (m(K x \<mapsto> x))"
| "last_put K (DeleteOp k # ops) m = last_put K ops (m(k := None))"

fun gens :: "'i atree \<Rightarrow> 32 word list" where
  "gens (AT a nd ks) = generation nd # concat (map gens ks)"

definition minv :: "('i \<Rightarrow> 'k) \<Rightarrow> ('k \<Rightarrow> 32 word) \<Rightarrow> 'i heap \<Rightarrow> ItemHamt \<Rightarrow> 'i atree \<Rightarrow> bool" where
  "minv K H h ht t \<longleftrightarrow>
     mutable ht \<and> root ht = Some (addr t) \<and> repr h t \<and>
     distinct (gaddrs (ht_generation ht) t) \<and> generation (node t) = ht_generation ht \<and>
     wf_tree K H 0 (\<lambda>_. True) t \<and> distinct (map K (items t))"

definition amap :: "('i \<Rightarrow> 'k) \<Rightarrow> 'i list \<Rightarrow> ('k \<rightharpoonup> 'i)" where
  "amap K xs = (\<lambda>k. find (\<lambda>x. K x = k) xs)"

definition snapshot :: "('i \<Rightarrow> 'k) \<Rightarrow> ('k \<Rightarrow> 32 word) \<Rightarrow> 'i heap \<Rightarrow> ItemHamt \<Rightarrow> 'i atree \<Rightarrow> bool" where
  "snapshot K H h S t \<longleftrightarrow>
     root S = Some (addr t) \<and> repr h t \<and> wf_tree K H 0 (\<lambda>_. True) t \<and> distinct (map K (items t))"

declare forEach.simps [code]

declare pullUp.simps [code]

definition wrapped_heap :: "(nat \<times> nat) heap" where
  "wrapped_heap =
     [\<lparr>generation = 0, bmVal = 1, bmPtr = 1, vals = [(0, 10)], ptrs = [1]\<rparr>,
      \<lparr>generation = 1, bmVal = 2, bmPtr = 0, vals = [(32, 20)], ptrs = []\<rparr>]"

definition wrapped_tree :: "(nat \<times> nat) atree" where
  "wrapped_tree =
     AT 0 \<lparr>generation = 0, bmVal = 1, bmPtr = 1, vals = [(0, 10)], ptrs = [1]\<rparr>
       [AT 1 \<lparr>generation = 1, bmVal = 2, bmPtr = 0, vals = [(32, 20)], ptrs = []\<rparr> []]"

definition wrapped_snapshot :: ItemHamt where
  "wrapped_snapshot = \<lparr>root = Some 0, mutable = False, ht_generation = 0\<rparr>"

definition frozen_heap :: "(nat \<times> nat) heap" where
  "frozen_heap =
     [\<lparr>generation = 1, bmVal = 1, bmPtr = 1, vals = [(0, 10)], ptrs = [1]\<rparr>,
      \<lparr>generation = 1, bmVal = 2, bmPtr = 0, vals = [(32, 20)], ptrs = []\<rparr>]"

definition frozen_tree :: "(nat \<times> nat) atree" where
  "frozen_tree =
     AT 0 \<lparr>generation = 1, bmVal = 1, bmPtr = 1, vals = [(0, 10)], ptrs = [1]\<rparr>
       [AT 1 \<lparr>generation = 1, bmVal = 2, bmPtr = 0, vals = [(32, 20)], ptrs = []\<rparr> []]"

definition frozen_snapshot :: ItemHamt where
  "frozen_snapshot = \<lparr>root = Some 0, mutable = False, ht_generation = 1\<rparr>"

section \<open>Chunk chains and table information: definitions\<close>

text \<open>
  Writing a trie to the store and reading a chain of chunks back (\<open>Write\<close>, \<open>read\<close> and
  \<open>ReadItemChain\<close> of \<open>hamt.go\<close>). The packages \<open>stor\<close> and \<open>cksum\<close> are not among the
  sources. Modelled from the spec: the store is a sequence of bytes, \<open>Alloc(n)\<close> returns
  the offset of \<open>n\<close> fresh bytes at its end and \<open>Data(off)\<close> the bytes from \<open>off\<close> on; the
  writer appends and the reader consumes big-endian integers of 1, 3, 4 and 5 bytes,
  truncated to their width, and strings with a length of two bytes in front (the
  \<open>2 + len(ti.Table)\<close> of \<open>storSize\<close>); a chunk ends with a checksum of \<open>cksum.Len\<close> bytes
  over the bytes in front of it. The checksum function and its length are parameters.
\<close>

type_synonym byte = "8 word"

type_synonym stor = "byte list"

fun be :: "nat \<Rightarrow> nat \<Rightarrow> byte list" where
  "be 0 n = []"
| "be (Suc k) n = be k (n div 256) @ [of_nat n]"

definition un_be :: "byte list \<Rightarrow> nat" where
  "un_be bs = foldl (\<lambda>a b. a * 256 + unat b) 0 bs"

definition getN :: "nat \<Rightarrow> byte list \<Rightarrow> (nat \<times> byte list) option" where
  "getN k r = (if length r < k then None else Some (un_be (take k r), drop k r))"

definition Put1 :: "nat \<Rightarrow> byte list" where "Put1 n = be 1 n"

definition Put3 :: "nat \<Rightarrow> byte list" where "Put3 n = be 3 n"

definition Put4 :: "int \<Rightarrow> byte list" where "Put4 n = be 4 (nat (n mod 2 ^ 32))"

definition Put5 :: "nat \<Rightarrow> byte list" where "Put5 n = be 5 n"

definition PutStr :: "byte list \<Rightarrow> byte list" where
  "PutStr s = be 2 (length s) @ s"

definition Get1 :: "byte list \<Rightarrow> (nat \<times> byte list) option" where "Get1 r = getN 1 r"

definition Get3 :: "byte list \<Rightarrow> (nat \<times> byte list) option" where "Get3 r = getN 3 r"

definition Get4 :: "byte list \<Rightarrow> (int \<times> byte list) option" where
  "Get4 r = map_option (\<lambda>(n, r'). (int n, r')) (getN 4 r)"

definition Get5 :: "byte list \<Rightarrow> (nat \<times> byte list) option" where "Get5 r = getN 5 r"

definition GetStr :: "byte list \<Rightarrow> (byte list \<times> byte list) option" where
  "GetStr r =
     (case getN 2 r of
        None \<Rightarrow> None
      | Some (n, r') \<Rightarrow> if length r' < n then None else Some (take n r', drop n r'))"

text \<open>What the generic code takes from the item type (\<open>it.storSize()\<close>, \<open>it.Write(w)\<close>,
  \<open>ReadItem(st, r)\<close>) and from the package \<open>cksum\<close>.\<close>

record 'i codec =
  storSize :: "'i \<Rightarrow> nat"
  itemWrite :: "'i \<Rightarrow> byte list"
  ReadItem :: "stor \<Rightarrow> byte list \<Rightarrow> ('i \<times> byte list) option"
  cksumLen :: nat
  cksumOf :: "byte list \<Rightarrow> byte list"

text \<open>\<open>cksum.MustCheck(buf)\<close>: the last \<open>cksum.Len\<close> bytes are the checksum of the
  bytes before them.\<close>

definition MustCheck :: "'i codec \<Rightarrow> byte list \<Rightarrow> bool" where
  "MustCheck c b \<longleftrightarrow>
     cksumLen c \<le> length b \<and>
     cksumOf c (take (length b - cksumLen c) b) = drop (length b - cksumLen c) b"

text \<open>\<open>func (ht ItemHamt) Write(st *stor.Stor, prevOff uint64, filter func(it Item) bool)
  uint64\<close>. The result is the store and the offset returned; \<open>assert.That(w.Len() ==
  size-cksum.Len)\<close> is the test of the length of what was written.\<close>

definition Write ::
  "'i codec \<Rightarrow> 'i heap \<Rightarrow> ItemHamt \<Rightarrow> stor \<Rightarrow> nat \<Rightarrow> ('i \<Rightarrow> bool) \<Rightarrow> (stor \<times> nat) option" where
  "Write c h ht st prevOff flt =
     (case ForEach h ht of
        None \<Rightarrow> None
      | Some xs \<Rightarrow>
          let its = filter flt xs;
              n0 = sum_list (map (storSize c) its)
          in
          if n0 = 0 then Some (st, 0)
          else
            let n = n0 + 3 + 5 + cksumLen c;
                buf = Put3 n @ Put5 prevOff @ concat (map (itemWrite c) its)
            in
            if length buf \<noteq> n - cksumLen c then None
            else Some (st @ buf @ cksumOf c buf, length st))"

text \<open>The loop of \<open>read\<close>: \<open>for r.Remaining() > 0 { it := ReadItem(st, r); if _, ok :=
  ht.Get(ItemKey(it)); !ok { ht.Put(it) } }\<close>.\<close>

partial_function (option) read_items ::
  "('i \<Rightarrow> 'k) \<Rightarrow> ('k \<Rightarrow> 32 word) \<Rightarrow> 'i codec \<Rightarrow> stor \<Rightarrow> byte list \<Rightarrow> 'i heap \<Rightarrow> ItemHamt
     \<Rightarrow> 'i heap option"
where
  "read_items K H c st r h ht =
     (if length r > 0 then
        (case ReadItem c st r of
           None \<Rightarrow> None
         | Some (it, r') \<Rightarrow>
             (case Get K H h ht (K it) of
                None \<Rightarrow> None
              | Some (Some x) \<Rightarrow> read_items K H c st r' h ht
              | Some None \<Rightarrow>
                  (case Put K H h ht it of
                     None \<Rightarrow> None
                   | Some h' \<Rightarrow> read_items K H c st r' h' ht)))
      else Some h)"

text \<open>\<open>func (ht ItemHamt) read(st *stor.Stor, off uint64) uint64\<close>\<close>

definition read ::
  "('i \<Rightarrow> 'k) \<Rightarrow> ('k \<Rightarrow> 32 word) \<Rightarrow> 'i codec \<Rightarrow> 'i heap \<Rightarrow> ItemHamt \<Rightarrow> stor \<Rightarrow> nat
     \<Rightarrow> ('i heap \<times> nat) option" where
  "read K H c h ht st off =
     (if off > length st then None
      else
        let buf = drop off st in
        case Get3 buf of
          None \<Rightarrow> None
        | Some (n, r0) \<Rightarrow>
            if n > length buf then None
            else if \<not> MustCheck c (take n buf) then None
            else if n - cksumLen c < 3 then None
            else
              (case Get5 (drop 3 (take (n - cksumLen c) buf)) of
                 None \<Rightarrow> None
               | Some (prevOff, r) \<Rightarrow>
                   (case read_items K H c st r h ht of
                      None \<Rightarrow> None
                    | Some h' \<Rightarrow> Some (h', prevOff))))"

text \<open>\<open>func ReadItemChain(st *stor.Stor, off uint64) (ItemHamt, []uint64)\<close>, its loop
  first.\<close>

partial_function (option) chain_loop ::
  "('i \<Rightarrow> 'k) \<Rightarrow> ('k \<Rightarrow> 32 word) \<Rightarrow> 'i codec \<Rightarrow> stor \<Rightarrow> nat \<Rightarrow> 'i heap \<Rightarrow> ItemHamt \<Rightarrow> nat list
     \<Rightarrow> ('i heap \<times> nat list) option"
where
  "chain_loop K H c st off h ht offs =
     (if off \<noteq> 0 then
        (case read K H c h ht st off of
           None \<Rightarrow> None
         | Some (h', prevOff) \<Rightarrow> chain_loop K H c st prevOff h' ht (offs @ [off]))
      else Some (h, offs))"

definition ReadItemChain ::
  "('i \<Rightarrow> 'k) \<Rightarrow> ('k \<Rightarrow> 32 word) \<Rightarrow> 'i codec \<Rightarrow> 'i heap \<Rightarrow> stor \<Rightarrow> nat
     \<Rightarrow> ('i heap \<times> ItemHamt \<times> nat list) option" where
  "ReadItemChain K H c h st off =
     (case Mutable h \<lparr>root = None, mutable = False, ht_generation = 0\<rparr> of
        None \<Rightarrow> None
      | Some (h1, ht) \<Rightarrow>
          (case chain_loop K H c st off h1 ht [] of
             None \<Rightarrow> None
           | Some (h', offs) \<Rightarrow> Some (h', Freeze ht, offs)))"

declare read_items.simps [code]

declare chain_loop.simps [code]

text \<open>
  The table information of \<open>db19/meta/info.go\<close>. The type of an index overlay
  (\<open>*index.Overlay\<close>) is the type variable \<open>'o\<close>; its \<open>StorSize\<close>, its \<open>Write\<close> and
  \<open>index.ReadOverlay\<close> are the parameters \<open>ovSize\<close>, \<open>ovWrite\<close> and \<open>ovRead\<close>. A table
  name is a sequence of bytes. A slice that is \<open>nil\<close> and an empty slice are both the
  empty list.
\<close>

record 'o Info =
  Table :: "byte list"
  Nrows :: int
  Size :: "64 word"
  origNrows :: int
  origSize :: "64 word"
  Indexes :: "'o list"
  lastmod :: int

definition Info_storSize :: "('o \<Rightarrow> nat) \<Rightarrow> 'o Info \<Rightarrow> nat" where
  "Info_storSize ovSize ti =
     2 + length (Table ti) + 4 + 5 + 1 + sum_list (map ovSize (Indexes ti))"

definition Info_Write :: "('o \<Rightarrow> byte list) \<Rightarrow> 'o Info \<Rightarrow> byte list" where
  "Info_Write ovWrite ti =
     PutStr (Table ti) @ Put4 (Nrows ti) @ Put5 (unat (Size ti)) @ Put1 (length (Indexes ti))
       @ concat (map ovWrite (Indexes ti))"

fun read_overlays ::
  "(stor \<Rightarrow> byte list \<Rightarrow> ('o \<times> byte list) option) \<Rightarrow> stor \<Rightarrow> nat \<Rightarrow> byte list
     \<Rightarrow> ('o list \<times> byte list) option" where
  "read_overlays ovRead st 0 r = Some ([], r)"
| "read_overlays ovRead st (Suc n) r =
     (case ovRead st r of
        None \<Rightarrow> None
      | Some (ov, r') \<Rightarrow>
          (case read_overlays ovRead st n r' of
             None \<Rightarrow> None
           | Some (ovs, r'') \<Rightarrow> Some (ov # ovs, r'')))"

definition ReadInfo ::
  "(stor \<Rightarrow> byte list \<Rightarrow> ('o \<times> byte list) option) \<Rightarrow> stor \<Rightarrow> byte list
     \<Rightarrow> ('o Info \<times> byte list) option" where
  "ReadInfo ovRead st r =
     (case GetStr r of
        None \<Rightarrow> None
      | Some (tbl, r1) \<Rightarrow>
     (case Get4 r1 of
        None \<Rightarrow> None
      | Some (nr, r2) \<Rightarrow>
     (case Get5 r2 of
        None \<Rightarrow> None
      | Some (sz, r3) \<Rightarrow>
     (case Get1 r3 of
        None \<Rightarrow> None
      | Some (ni, r4) \<Rightarrow>
     (case read_overlays ovRead st ni r4 of
        None \<Rightarrow> None
      | Some (ovs, r5) \<Rightarrow>
          Some (\<lparr>Table = tbl, Nrows = nr, Size = of_nat sz, origNrows = 0, origSize = 0,
                 Indexes = ovs, lastmod = 0\<rparr>, r5))))))"

definition InfoKey :: "'o Info \<Rightarrow> byte list" where
  "InfoKey ti = Table ti"

definition InfoCodec ::
  "('o \<Rightarrow> nat) \<Rightarrow> ('o \<Rightarrow> byte list) \<Rightarrow> (stor \<Rightarrow> byte list \<Rightarrow> ('o \<times> byte list) option)
     \<Rightarrow> nat \<Rightarrow> (byte list \<Rightarrow> byte list) \<Rightarrow> 'o Info codec" where
  "InfoCodec ovSize ovWrite ovRead cklen ck =
     \<lparr>storSize = Info_storSize ovSize, itemWrite = Info_Write ovWrite,
      ReadItem = ReadInfo ovRead, cksumLen = cklen, cksumOf = ck\<rparr>"

definition codec_ok :: "'i codec \<Rightarrow> ('i \<Rightarrow> bool) \<Rightarrow> ('i \<Rightarrow> 'i) \<Rightarrow> bool" where
  "codec_ok c valid norm \<longleftrightarrow>
     (\<forall>bs. length (cksumOf c bs) = cksumLen c) \<and>
     (\<forall>x. valid x \<longrightarrow>
        length (itemWrite c x) = storSize c x \<and> 0 < storSize c x \<and>
        (\<forall>st r. ReadItem c st (itemWrite c x @ r) = Some (norm x, r)))"

definition chunk_size :: "'i codec \<Rightarrow> 'i list \<Rightarrow> nat" where
  "chunk_size c its = sum_list (map (storSize c) its) + 3 + 5 + cksumLen c"

definition chunk_bytes :: "'i codec \<Rightarrow> nat \<Rightarrow> 'i list \<Rightarrow> byte list" where
  "chunk_bytes c prev its =
     (Put3 (chunk_size c its) @ Put5 prev @ concat (map (itemWrite c) its)) @
     cksumOf c (Put3 (chunk_size c its) @ Put5 prev @ concat (map (itemWrite c) its))"

fun chain_off :: "(nat \<times> 'i list) list \<Rightarrow> nat" where
  "chain_off [] = 0"
| "chain_off ((a, its) # cs) = a"

fun chain_at :: "'i codec \<Rightarrow> ('i \<Rightarrow> bool) \<Rightarrow> stor \<Rightarrow> (nat \<times> 'i list) list \<Rightarrow> bool" where
  "chain_at c valid st [] \<longleftrightarrow> True"
| "chain_at c valid st ((a, its) # cs) \<longleftrightarrow>
     a \<noteq> 0 \<and> a + chunk_size c its \<le> length st \<and>
     take (chunk_size c its) (drop a st) = chunk_bytes c (chain_off cs) its \<and>
     chunk_size c its < 2 ^ 24 \<and> chain_off cs < 2 ^ 40 \<and> (\<forall>x\<in>set its. valid x) \<and>
     chain_at c valid st cs"

fun write_all :: "'i codec \<Rightarrow> stor \<Rightarrow> nat \<Rightarrow> ('i heap \<times> ItemHamt) list \<Rightarrow> (stor \<times> nat) option" where
  "write_all c st prev [] = Some (st, prev)"
| "write_all c st prev ((h, ht) # ws) =
     (case Write c h ht st prev (\<lambda>_. True) of
        None \<Rightarrow> None
      | Some (st', off) \<Rightarrow> write_all c st' off ws)"

text \<open>The instance of \<open>ReadItemChain\<close> that \<open>genny\<close> generates for \<open>Item=*Info
  KeyType=string\<close>. The hash \<open>InfoHash\<close> (\<open>hash.HashString\<close>, not among the sources) is
  the parameter \<open>H\<close>.\<close>

definition ReadInfoChain ::
  "(byte list \<Rightarrow> 32 word) \<Rightarrow> 'o Info codec \<Rightarrow> 'o Info heap \<Rightarrow> stor \<Rightarrow> nat
     \<Rightarrow> ('o Info heap \<times> ItemHamt \<times> nat list) option" where
  "ReadInfoChain H c h st off = ReadItemChain InfoKey H c h st off"

text \<open>The body of \<open>TestInfo\<close> after the table is built: a store with one byte in it
  (\<open>st.Alloc(1) // avoid offset 0\<close>), \<open>off := tbl.Write(st, 0, allInfo)\<close>,
  \<open>tbl, _ = ReadInfoChain(st, off)\<close> and \<open>tbl.Get(key)\<close>.\<close>

definition TestInfo ::
  "(byte list \<Rightarrow> 32 word) \<Rightarrow> 'o Info codec \<Rightarrow> 'o Info heap \<Rightarrow> ItemHamt \<Rightarrow> byte list
     \<Rightarrow> 'o Info option option" where
  "TestInfo H c h tbl key =
     (case Write c h tbl [0] 0 (\<lambda>_. True) of
        None \<Rightarrow> None
      | Some (st, off) \<Rightarrow>
          (case ReadInfoChain H c [] st off of
             None \<Rightarrow> None
           | Some (h', tbl', offs) \<Rightarrow> Get InfoKey H h' tbl' key))"

text \<open>The values that the fields of the chunk format can hold, and what of a record
  is written.\<close>

definition Info_valid :: "'o Info \<Rightarrow> bool" where
  "Info_valid ti \<longleftrightarrow>
     length (Table ti) < 65536 \<and> 0 \<le> Nrows ti \<and> Nrows ti < 2 ^ 32 \<and>
     unat (Size ti) < 2 ^ 40 \<and> length (Indexes ti) < 256"

definition persisted :: "'o Info \<Rightarrow> 'o Info" where
  "persisted ti = ti\<lparr>origNrows := 0, origSize := 0, lastmod := 0\<rparr>"

text \<open>A small instance: an overlay stored as one byte, the sum of the bytes as
  checksum, and the first byte of a name as its hash.\<close>

definition byte_ovSize :: "byte \<Rightarrow> nat" where
  "byte_ovSize ov = 1"

definition byte_ovWrite :: "byte \<Rightarrow> byte list" where
  "byte_ovWrite ov = [ov]"

definition byte_ovRead :: "stor \<Rightarrow> byte list \<Rightarrow> (byte \<times> byte list) option" where
  "byte_ovRead st r = (case r of [] \<Rightarrow> None | b # r' \<Rightarrow> Some (b, r'))"

definition sum_cksum :: "byte list \<Rightarrow> byte list" where
  "sum_cksum bs = [sum_list bs]"

definition first_byte_hash :: "byte list \<Rightarrow> 32 word" where
  "first_byte_hash k = (case k of [] \<Rightarrow> 0 | b # bs \<Rightarrow> ucast b)"

definition byte_codec :: "byte Info codec" where
  "byte_codec = InfoCodec byte_ovSize byte_ovWrite byte_ovRead 1 sum_cksum"

definition info_one :: "byte Info" where
  "info_one = \<lparr>Table = [111, 110, 101], Nrows = 100, Size = 1000, origNrows = 0, origSize = 0,
               Indexes = [], lastmod = 0\<rparr>"

definition info_two :: "byte Info" where
  "info_two = \<lparr>Table = [116, 119, 111], Nrows = 200, Size = 2000, origNrows = 0, origSize = 0,
               Indexes = [], lastmod = 0\<rparr>"

definition info_one_new :: "byte Info" where
  "info_one_new = \<lparr>Table = [111, 110, 101], Nrows = 101, Size = 1010, origNrows = 100,
                   origSize = 1000, Indexes = [7], lastmod = 1\<rparr>"

definition info_tbl :: ItemHamt where
  "info_tbl = \<lparr>root = Some 1, mutable = True, ht_generation = 1\<rparr>"

definition info_heap0 :: "byte Info heap" where
  "info_heap0 =
     [\<lparr>generation = 1, bmVal = 0, bmPtr = 0, vals = [], ptrs = []\<rparr>,
      \<lparr>generation = 1, bmVal = 0, bmPtr = 0, vals = [], ptrs = []\<rparr>]"

definition info_heap_old :: "byte Info heap" where
  "info_heap_old =
     [\<lparr>generation = 1, bmVal = 0, bmPtr = 0, vals = [], ptrs = []\<rparr>,
      \<lparr>generation = 1, bmVal = 1081344, bmPtr = 0, vals = [info_one, info_two], ptrs = []\<rparr>]"

definition info_heap_new :: "byte Info heap" where
  "info_heap_new =
     [\<lparr>generation = 1, bmVal = 0, bmPtr = 0, vals = [], ptrs = []\<rparr>,
      \<lparr>generation = 1, bmVal = 32768, bmPtr = 0, vals = [info_one_new], ptrs = []\<rparr>]"

section \<open>Index keys: definitions\<close>

text \<open>
  Index keys (package ixkey). The encoder is not among the sources; its tests are.
  Modelled from the spec: a key is composed from the fields of a record that the index
  names, joined by the separator \<open>0x00 0x00\<close>, with a zero byte in a field escaped as
  \<open>0x00 0x01\<close>; a single-field key is stored raw without escape; trailing empty fields
  are omitted. A record is the list of its raw fields, a field that the record does not
  have being empty (\<open>TestKey\<close>: a record of two fields under an index of three). Only
  the primary fields \<open>Fields\<close> of a \<open>Spec\<close> are modelled.
\<close>

type_synonym Record = "8 word list list"

definition GetRaw :: "Record \<Rightarrow> nat \<Rightarrow> 8 word list" where
  "GetRaw rec i = (if i < length rec then rec ! i else [])"

fun escape :: "8 word list \<Rightarrow> 8 word list" where
  "escape [] = []"
| "escape (b # bs) = (if b = 0 then 0 # 1 # escape bs else b # escape bs)"

fun join_fields :: "8 word list list \<Rightarrow> 8 word list" where
  "join_fields [] = []"
| "join_fields (f # fs) =
     escape f @ (if \<forall>g\<in>set fs. g = [] then [] else 0 # 0 # join_fields fs)"

definition Key :: "nat list \<Rightarrow> Record \<Rightarrow> 8 word list" where
  "Key flds rec =
     (if length flds = 1 then GetRaw rec (hd flds)
      else join_fields (map (GetRaw rec) flds))"

text \<open>\<open>func lt(x Record, y Record) bool\<close> of the tests of the package, with
  \<open>strings.Compare\<close> the lexicographic order of the bytes.\<close>

fun lt :: "Record \<Rightarrow> Record \<Rightarrow> bool" where
  "lt [] y = (0 < length y)"
| "lt (a # x) [] = False"
| "lt (a # x) (b # y) = (if a \<noteq> b then a < b else lt x y)"

definition sep :: "8 word list \<Rightarrow> bool" where
  "sep s \<longleftrightarrow> s = [] \<or> (\<exists>r. s = 0 # 0 # r)"

definition rest_fields :: "8 word list list \<Rightarrow> 8 word list" where
  "rest_fields fs = (if \<forall>g\<in>set fs. g = [] then [] else 0 # 0 # join_fields fs)"

section \<open>Code generator: properties\<close>

lemma index_from_None: "index_from i s xs = None \<longleftrightarrow> s \<notin> set xs"
  by (induction xs arbitrary: i) auto


lemma name_new:
  "s \<notin> set (Names cg) \<Longrightarrow>
   name cg s = (if length (Names cg) > 255 then Inl TooManyLocals
                else Inr (length (Names cg), cg\<lparr>Names := Names cg @ [s]\<rparr>))"
  using index_from_None [of 0 s "Names cg"]
  by (simp add: name_def MaxUint8_def Let_def)

lemma value_new:
  "v \<notin> set (Values cg) \<Longrightarrow>
   value cg v = (if length (Values cg) > 255 then Inl TooManyConstants
                 else Inr (length (Values cg), cg\<lparr>Values := Values cg @ [v]\<rparr>))"
  using index_from_None [of 0 v "Values cg"]
  by (simp add: value_def MaxUint8_def Let_def)




lemma name_panics_beyond_256:
  "s \<notin> set (Names cg) \<Longrightarrow> length (Names cg) > 255 \<Longrightarrow> name cg s = Inl TooManyLocals"
  by (simp add: name_new)

lemma value_panics_beyond_256:
  "v \<notin> set (Values cg) \<Longrightarrow> length (Values cg) > 255 \<Longrightarrow> value cg v = Inl TooManyConstants"
  by (simp add: value_new)












section \<open>Hash array mapped trie: properties\<close>

lemma maskItem_eq: "maskItem = 31"
  by (simp add: maskItem_def bitsPerItemNode_def)

lemma chunk_lt: "chunk hash shift < 32"
proof -
  have "drop_bit shift hash AND (31 :: 32 word) \<le> 31"
    by (rule word_and_le1)
  then have "unat (drop_bit shift hash AND (31 :: 32 word)) \<le> unat (31 :: 32 word)"
    by (simp add: word_le_nat_alt)
  then show ?thesis by (simp add: chunk_def maskItem_eq)
qed

lemma node_bit_chunk: "node_bit hash shift = 2 ^ chunk hash shift"
  by (simp add: node_bit_def chunk_def)

lemma and_bit_zero: "p < 32 \<Longrightarrow> (w AND 2 ^ p = 0) \<longleftrightarrow> \<not> bit (w :: 32 word) p"
  by (simp add: and_exp_eq_0_iff_not_bit)

lemma bit_minus_1: "2 ^ p - 1 = (mask p :: 32 word)"
  by (simp add: mask_eq_exp_minus_1)

lemma upt_32_split: "p < 32 \<Longrightarrow> [0..<32] = [0..<p] @ p # [Suc p..<32]"
  by (metis less_imp_add_positive upt_add_eq_append upt_conv_Cons zero_le)

lemma slots_split:
  "p < 32 \<Longrightarrow> slots w = filter (bit w) [0..<p] @ (if bit w p then [p] else []) @ filter (bit w) [Suc p..<32]"
  by (simp add: slots_def upt_32_split [of p])

lemma OnesCount32_below:
  "p < 32 \<Longrightarrow> OnesCount32 (w AND (2 ^ p - 1)) = length (filter (bit w) [0..<p])"
proof -
  assume p: "p < 32"
  have "filter (bit (w AND mask p)) [0..<32] = filter (\<lambda>n. bit w n \<and> n < p) [0..<32]"
    by (rule filter_cong) (auto simp: bit_and_iff bit_mask_iff)
  also have "\<dots> = filter (bit w) [0..<p]"
    by (simp add: upt_32_split [OF p] filter_empty_conv) (rule filter_cong, auto)
  finally show ?thesis unfolding OnesCount32_def bit_minus_1 by simp
qed

lemma bit_or_bit: "p < 32 \<Longrightarrow> bit ((w :: 32 word) OR 2 ^ p) n \<longleftrightarrow> bit w n \<or> n = p"
  by (auto simp: bit_or_iff bit_exp_iff)

lemma bit_andnot_bit: "bit ((w :: 32 word) AND NOT (2 ^ p)) n \<longleftrightarrow> bit w n \<and> n \<noteq> p"
  by (auto simp: bit_and_iff bit_not_exp_iff dest: bit_imp_possible_bit)

lemma slots_Nil: "slots w = [] \<longleftrightarrow> w = 0"
proof
  assume "slots w = []"
  then have "\<forall>n<32. \<not> bit w n" by (auto simp: slots_def filter_empty_conv)
  then show "w = 0" by (intro bit_word_eqI) auto
next
  assume "w = 0" then show "slots w = []" by (simp add: slots_def)
qed

lemma set_slots: "set (slots w) = {n. bit w n}"
  by (auto simp: slots_def dest: bit_imp_le_length)

lemma sorted_slots: "sorted (slots w)" and distinct_slots: "distinct (slots w)"
  by (simp_all add: slots_def sorted_wrt_filter)

lemma OnesCount32_slots: "OnesCount32 w = length (slots w)"
  by (simp add: OnesCount32_def slots_def)

lemma sorted_le_last: "sorted xs \<Longrightarrow> (n :: nat) \<in> set xs \<Longrightarrow> n \<le> last xs"
  by (induction xs) (auto split: if_splits)

lemma slots_last_highest:
  assumes "w \<noteq> 0"
  shows "last (slots w) < 32" and "bit w (last (slots w))"
    and "filter (bit w) [Suc (last (slots w))..<32] = []"
proof -
  from assms have ne: "slots w \<noteq> []" by (simp add: slots_Nil)
  then have m: "last (slots w) \<in> set (slots w)" by simp
  then show "last (slots w) < 32" and "bit w (last (slots w))"
    by (auto simp: slots_def)
  have "\<And>n. n \<in> set (slots w) \<Longrightarrow> n \<le> last (slots w)"
    using sorted_slots [of w] by (rule sorted_le_last)
  then have "\<And>n. bit w n \<Longrightarrow> n \<le> last (slots w)"
    by (simp add: set_slots)
  then show "filter (bit w) [Suc (last (slots w))..<32] = []"
    by (fastforce simp: filter_empty_conv)
qed

lemma slots_butlast:
  assumes "w \<noteq> 0"
  shows "slots w = filter (bit w) [0..<last (slots w)] @ [last (slots w)]"
  using slots_split [of "last (slots w)" w] slots_last_highest [OF assms] by simp

lemma LeadingZeros32_eq:
  assumes "w \<noteq> 0"
  shows "LeadingZeros32 w = 31 - last (slots w)"
proof -
  define m where "m = last (slots w)"
  from slots_last_highest [OF assms]
  have m: "m < 32" and b: "bit w m" and hi: "filter (bit w) [Suc m..<32] = []"
    by (auto simp: m_def)
  have r: "rev [0..<32] = rev [Suc m..<32] @ m # rev [0..<m]"
    by (simp add: upt_32_split [OF m])
  have "\<And>n. n \<in> set (rev [Suc m..<32]) \<Longrightarrow> \<not> bit w n"
    using hi by (simp add: filter_empty_conv)
  then have "takeWhile (\<lambda>n. \<not> bit w n) (rev [Suc m..<32] @ m # rev [0..<m])
      = rev [Suc m..<32] @ takeWhile (\<lambda>n. \<not> bit w n) (m # rev [0..<m])"
    by (rule takeWhile_append2)
  also have "\<dots> = rev [Suc m..<32]" using b by simp
  finally show ?thesis using m unfolding LeadingZeros32_def r m_def [symmetric] by simp
qed

lemma clearHighestOneBit_slots:
  assumes "w \<noteq> 0"
  shows "\<exists>w'. clearHighestOneBit w = Some w' \<and> slots w' = butlast (slots w)"
proof -
  define m where "m = last (slots w)"
  from slots_last_highest [OF assms]
  have m: "m < 32" and b: "bit w m" and hi: "filter (bit w) [Suc m..<32] = []"
    by (auto simp: m_def)
  have lz: "LeadingZeros32 w = 31 - m" unfolding m_def by (rule LeadingZeros32_eq [OF assms])
  define w' where "w' = w AND NOT (2 ^ m)"
  have c: "clearHighestOneBit w = Some w'"
    using m by (simp add: clearHighestOneBit_def lz w'_def)
  have "slots w' = filter (\<lambda>n. bit w n \<and> n \<noteq> m) [0..<32]"
    unfolding slots_def w'_def by (rule filter_cong) (auto simp: bit_andnot_bit)
  also have "\<dots> = filter (\<lambda>n. bit w n \<and> n \<noteq> m) [0..<m] @ filter (\<lambda>n. bit w n \<and> n \<noteq> m) [Suc m..<32]"
    by (simp add: upt_32_split [OF m])
  also have "filter (\<lambda>n. bit w n \<and> n \<noteq> m) [Suc m..<32] = []"
    using hi by (auto simp: filter_empty_conv)
  also have "filter (\<lambda>n. bit w n \<and> n \<noteq> m) [0..<m] = filter (bit w) [0..<m]"
    by (rule filter_cong) auto
  finally have "slots w' = filter (bit w) [0..<m]" by simp
  moreover have "slots w = filter (bit w) [0..<m] @ [m]"
    unfolding m_def by (rule slots_butlast [OF assms])
  ultimately have "slots w' = butlast (slots w)" by simp
  with c show ?thesis by blast
qed

lemma slots_lo_hi: "p < 32 \<Longrightarrow> slots w = lo w p @ (if bit w p then [p] else []) @ hi w p"
  by (simp add: lo_def hi_def slots_split)

lemma slots_set_bit: "p < 32 \<Longrightarrow> slots (w OR 2 ^ p) = lo w p @ [p] @ hi w p"
proof -
  assume p: "p < 32"
  have 1: "lo (w OR 2 ^ p) p = lo w p" unfolding lo_def
    by (rule filter_cong) (auto simp: bit_or_bit [OF p])
  have 2: "hi (w OR 2 ^ p) p = hi w p" unfolding hi_def
    by (rule filter_cong) (auto simp: bit_or_bit [OF p])
  show ?thesis using slots_lo_hi [OF p, of "w OR 2 ^ p"] by (simp add: 1 2 bit_or_bit [OF p])
qed

lemma slots_clear_bit: "p < 32 \<Longrightarrow> slots (w AND NOT (2 ^ p)) = lo w p @ hi w p"
proof -
  assume p: "p < 32"
  have 1: "lo (w AND NOT (2 ^ p)) p = lo w p" unfolding lo_def
    by (rule filter_cong) (auto simp: bit_andnot_bit)
  have 2: "hi (w AND NOT (2 ^ p)) p = hi w p" unfolding hi_def
    by (rule filter_cong) (auto simp: bit_andnot_bit)
  show ?thesis using slots_lo_hi [OF p, of "w AND NOT (2 ^ p)"] by (simp add: 1 2 bit_andnot_bit)
qed

lemma OnesCount32_lo: "p < 32 \<Longrightarrow> OnesCount32 (w AND (2 ^ p - 1)) = length (lo w p)"
  by (simp add: OnesCount32_below lo_def)

lemma lo_hi_notin: "p \<notin> set (lo w p)" "p \<notin> set (hi w p)"
  by (auto simp: lo_def hi_def)

lemma repr_frame:
  "repr h t \<Longrightarrow> length h \<le> length h' \<Longrightarrow> (\<And>b. b \<in> set (addrs t) \<Longrightarrow> h' ! b = h ! b) \<Longrightarrow> repr h' t"
proof (induction t)
  case (AT a nd ks)
  have "\<And>k. k \<in> set ks \<Longrightarrow> repr h' k"
  proof -
    fix k assume k: "k \<in> set ks"
    with AT.prems(1) have "repr h k" by simp
    moreover have "\<And>b. b \<in> set (addrs k) \<Longrightarrow> h' ! b = h ! b"
      using AT.prems(3) k by auto
    ultimately show "repr h' k" using AT.IH [OF k] AT.prems(2) by blast
  qed
  moreover have "h' ! a = h ! a" using AT.prems(3) by simp
  ultimately show ?case using AT.prems(1,2) by auto
qed

lemma gaddrs_subset: "set (gaddrs G t) \<subseteq> set (addrs t)"
  by (induction t) fastforce

lemma repr_gaddrs:
  "repr h t \<Longrightarrow> b \<in> set (addrs t) \<Longrightarrow> generation (h ! b) = G \<Longrightarrow> b \<in> set (gaddrs G t)"
  by (induction t) auto

lemma gaddrs_gen:
  "repr h t \<Longrightarrow> b \<in> set (gaddrs G t) \<Longrightarrow> generation (h ! b) = G"
  by (induction t) (auto split: if_splits)

lemma addrs_lt: "repr h t \<Longrightarrow> b \<in> set (addrs t) \<Longrightarrow> b < length h"
  by (induction t) auto

lemma wf_items_P: "wf_tree K H s P t \<Longrightarrow> v \<in> set (items t) \<Longrightarrow> P (H (K v))"
proof (induction t arbitrary: s P)
  case (AT a nd ks)
  from AT.prems(2) consider "v \<in> set (vals nd)" | k where "k \<in> set ks" "v \<in> set (items k)"
    by auto
  then show ?case
  proof cases
    case 1
    with AT.prems(1) show ?thesis by simp
  next
    case 2
    with AT.prems(1) have s: "\<not> s \<ge> 32" by auto
    from 2 obtain j where j: "j < length ks" "ks ! j = k" by (auto simp: in_set_conv_nth)
    from AT.prems(1) s have
      "list_all2 (\<lambda>p k. wf_tree K H (s + 5) (\<lambda>x. P x \<and> chunk x s = p) k \<and> vals (node k) \<noteq> [])
              (slots (bmPtr nd)) ks" by simp
    with j have "wf_tree K H (s + 5) (\<lambda>x. P x \<and> chunk x s = slots (bmPtr nd) ! j) k"
      by (auto simp: list_all2_conv_all_nth)
    from AT.IH [OF 2(1) this 2(2)] show ?thesis by simp
  qed
qed

lemma nth_mid_eq:
  assumes "(xs @ p # ys) ! i = p" "i < length xs + 1 + length ys" "p \<notin> set xs" "p \<notin> set ys"
  shows "i = length xs"
proof (rule ccontr)
  assume n: "i \<noteq> length xs"
  show False
  proof (cases "i < length xs")
    case True
    with assms(1) have "xs ! i = p" by (simp add: nth_append)
    moreover from True have "xs ! i \<in> set xs" by simp
    ultimately show False using assms(3) by simp
  next
    case False
    define j where "j = i - Suc (length xs)"
    from False n have j: "i = length xs + Suc j" by (simp add: j_def)
    with assms(1) have "ys ! j = p" by (simp add: nth_append)
    moreover from j assms(2) have "ys ! j \<in> set ys" by simp
    ultimately show False using assms(4) by simp
  qed
qed

lemma map_eq_mid:
  assumes "map f vs = xs @ p # ys" "p \<notin> set xs" "p \<notin> set ys"
  shows "length xs < length vs" and "f (vs ! length xs) = p"
    and "\<And>v. v \<in> set vs \<Longrightarrow> f v = p \<Longrightarrow> v = vs ! length xs"
    and "map f (take (length xs) vs) = xs" and "map f (drop (Suc (length xs)) vs) = ys"
proof -
  have "length (map f vs) = length (xs @ p # ys)" using assms(1) by simp
  then have len: "length vs = length xs + 1 + length ys" by simp
  then show l: "length xs < length vs" by simp
  have "map f vs ! length xs = p" unfolding assms(1) by simp
  with l show "f (vs ! length xs) = p" by simp
  have "take (length xs) (map f vs) = xs" unfolding assms(1) by simp
  then show "map f (take (length xs) vs) = xs" by (simp add: take_map)
  have "drop (Suc (length xs)) (map f vs) = ys" unfolding assms(1) by simp
  then show "map f (drop (Suc (length xs)) vs) = ys" by (simp add: drop_map)
  fix v assume v: "v \<in> set vs" "f v = p"
  then obtain i where i: "i < length vs" "vs ! i = v" by (auto simp: in_set_conv_nth)
  then have "map f vs ! i = p" using v(2) by simp
  then have "(xs @ p # ys) ! i = p" unfolding assms(1) .
  from nth_mid_eq [OF this _ assms(2,3)] i(1) len have "i = length xs" by simp
  with i show "v = vs ! length xs" by simp
qed

lemma map_eq_nomid:
  assumes "map f vs = xs @ ys" "p \<notin> set xs" "p \<notin> set ys"
  shows "\<And>v. v \<in> set vs \<Longrightarrow> f v \<noteq> p"
    and "length xs \<le> length vs"
    and "map f (take (length xs) vs) = xs" and "map f (drop (length xs) vs) = ys"
proof -
  fix v assume "v \<in> set vs"
  then have "f v \<in> set (map f vs)" by simp
  then show "f v \<noteq> p" unfolding assms(1) using assms(2,3) by auto
next
  have "length (map f vs) = length (xs @ ys)" using assms(1) by simp
  then show "length xs \<le> length vs" by simp
  have "take (length xs) (map f vs) = xs" unfolding assms(1) by simp
  then show "map f (take (length xs) vs) = xs" by (simp add: take_map)
  have "drop (length xs) (map f vs) = ys" unfolding assms(1) by simp
  then show "map f (drop (length xs) vs) = ys" by (simp add: drop_map)
qed

lemma find_unique:
  "distinct (map K xs) \<Longrightarrow> x \<in> set xs \<Longrightarrow> find (\<lambda>v. K v = K x) xs = Some x"
  by (induction xs) (auto simp: image_iff)

lemma find_append:
  "find Q (xs @ ys) = (case find Q xs of None \<Rightarrow> find Q ys | Some x \<Rightarrow> Some x)"
  by (induction xs) auto

lemma find_None_set: "(\<And>x. x \<in> set xs \<Longrightarrow> \<not> Q x) \<Longrightarrow> find Q xs = None"
  by (simp add: find_None_iff)

lemma kids_off_path:
  assumes "list_all2 (kidR K H s P) qs ks" "p \<notin> set qs" "k \<in> set ks" "v \<in> set (items k)"
  shows "chunk (H (K v)) s \<noteq> p"
proof -
  from assms(3) obtain j where j: "j < length ks" "ks ! j = k" by (auto simp: in_set_conv_nth)
  with assms(1) have "wf_tree K H (s + 5) (\<lambda>x. P x \<and> chunk x s = qs ! j) k" and "j < length qs"
    by (auto simp: list_all2_conv_all_nth)
  with wf_items_P [OF this(1) assms(4)] assms(2) show ?thesis by auto
qed

lemma kids_split:
  assumes "list_all2 R (xs @ p # ys) ks"
  shows "\<exists>pre c post. ks = pre @ c # post \<and> length pre = length xs \<and>
           list_all2 R xs pre \<and> R p c \<and> list_all2 R ys post"
proof -
  from assms obtain pre rest where 1: "ks = pre @ rest" "list_all2 R xs pre" "list_all2 R (p # ys) rest"
    by (auto simp: list_all2_append1)
  from 1(3) obtain c post where 2: "rest = c # post" "R p c" "list_all2 R ys post"
    by (auto simp: list_all2_Cons1)
  from 1 2 show ?thesis
    by (intro exI [of _ pre] exI [of _ c] exI [of _ post]) (auto dest: list_all2_lengthD)
qed

lemma wf_node_simps:
  "s < 32 \<Longrightarrow> wf_tree K H s P (AT a nd ks) \<longleftrightarrow>
     (\<forall>v\<in>set (vals nd). P (H (K v))) \<and>
     map (\<lambda>v. chunk (H (K v)) s) (vals nd) = slots (bmVal nd) \<and>
     set (slots (bmPtr nd)) \<subseteq> set (slots (bmVal nd)) \<and>
     list_all2 (kidR K H s P) (slots (bmPtr nd)) ks"
  by auto

lemma get_loop_find:
  "repr h t \<Longrightarrow> wf_tree K H s P t \<Longrightarrow> distinct (map K (items t)) \<Longrightarrow> P (H key) \<Longrightarrow>
   get_loop K h (addr t) key (H key) s = Some (find (\<lambda>v. K v = key) (items t))"
proof (induction t arbitrary: s P)
  case (AT a nd ks)
  from AT.prems(1) have d: "deref h a = Some nd" and pt: "ptrs nd = map addr ks"
    by (auto simp: deref_def)
  show ?case
  proof (cases "s < 32")
    case False
    with AT.prems(2) have "ks = []" by simp
    with False d show ?thesis by (subst get_loop.simps) simp
  next
    case True
    define p where "p = chunk (H key) s"
    have p: "p < 32" by (simp add: p_def chunk_lt)
    define bv where "bv = bmVal nd"
    define bp where "bp = bmPtr nd"
    define f where "f = (\<lambda>v. chunk (H (K v)) s)"
    from AT.prems(2) True have
      wP: "\<forall>v\<in>set (vals nd). P (H (K v))" and
      wv: "map f (vals nd) = slots bv" and
      ws: "set (slots bp) \<subseteq> set (slots bv)" and
      wk: "list_all2 (kidR K H s P) (slots bp) ks"
      by (simp_all add: bv_def bp_def f_def)
    have iv: "OnesCount32 (bmVal nd AND (node_bit (H key) s - 1)) = length (lo bv p)"
      by (simp add: node_bit_chunk p_def [symmetric] OnesCount32_lo [OF p] bv_def)
    have ip: "OnesCount32 (bmPtr nd AND (node_bit (H key) s - 1)) = length (lo bp p)"
      by (simp add: node_bit_chunk p_def [symmetric] OnesCount32_lo [OF p] bp_def)
    have bz: "(bmVal nd AND node_bit (H key) s = 0) \<longleftrightarrow> \<not> bit bv p"
      by (simp add: node_bit_chunk p_def [symmetric] and_bit_zero [OF p] bv_def)
    have pz: "(bmPtr nd AND node_bit (H key) s = 0) \<longleftrightarrow> \<not> bit bp p"
      by (simp add: node_bit_chunk p_def [symmetric] and_bit_zero [OF p] bp_def)
    have keyp: "\<And>v. K v = key \<Longrightarrow> f v = p" by (simp add: f_def p_def)
    have offkids: "\<And>qs ks' k v. list_all2 (kidR K H s P) qs ks' \<Longrightarrow> p \<notin> set qs \<Longrightarrow>
        k \<in> set ks' \<Longrightarrow> v \<in> set (items k) \<Longrightarrow> K v \<noteq> key"
      using kids_off_path [where K = K and H = H and s = s and P = P and p = p] p_def by blast
    show ?thesis
    proof (cases "bit bv p")
      case False
      with ws have nbp: "\<not> bit bp p" by (auto simp: set_slots)
      from False have "slots bv = lo bv p @ hi bv p" by (simp add: slots_lo_hi [OF p])
      with wv have "\<And>v. v \<in> set (vals nd) \<Longrightarrow> f v \<noteq> p"
        using map_eq_nomid(1) [of f "vals nd" "lo bv p" "hi bv p" p] lo_hi_notin by metis
      with keyp have nv: "\<And>v. v \<in> set (vals nd) \<Longrightarrow> K v \<noteq> key" by blast
      from nbp have "p \<notin> set (slots bp)" by (simp add: set_slots)
      from offkids [OF wk this] have "\<And>k v. k \<in> set ks \<Longrightarrow> v \<in> set (items k) \<Longrightarrow> K v \<noteq> key" .
      with nv have "find (\<lambda>v. K v = key) (items (AT a nd ks)) = None"
        by (auto simp: find_None_iff)
      moreover have "get_loop K h a key (H key) s = Some None"
        using True False nbp d by (subst get_loop.simps) (simp add: bz pz Let_def)
      ultimately show ?thesis by simp
    next
      case bvp: True
      then have sl: "slots bv = lo bv p @ p # hi bv p" by (simp add: slots_lo_hi [OF p])
      note m = map_eq_mid [OF wv [unfolded sl] lo_hi_notin]
      show ?thesis
      proof (cases "K (vals nd ! length (lo bv p)) = key")
        case kv: True
        have "vals nd ! length (lo bv p) \<in> set (items (AT a nd ks))" using m(1) by simp
        from find_unique [OF AT.prems(3) this] kv
        have "find (\<lambda>v. K v = key) (items (AT a nd ks)) = Some (vals nd ! length (lo bv p))" by simp
        moreover have "get_loop K h a key (H key) s = Some (Some (vals nd ! length (lo bv p)))"
          using True bvp kv d m(1) by (subst get_loop.simps) (simp add: bz iv Let_def)
        ultimately show ?thesis by simp
      next
        case kv: False
        have nv: "\<And>v. v \<in> set (vals nd) \<Longrightarrow> K v \<noteq> key"
          using m(3) keyp kv by blast
        show ?thesis
        proof (cases "bit bp p")
          case False
          then have "p \<notin> set (slots bp)" by (simp add: set_slots)
          from offkids [OF wk this] have "\<And>k v. k \<in> set ks \<Longrightarrow> v \<in> set (items k) \<Longrightarrow> K v \<noteq> key" .
          with nv have "find (\<lambda>v. K v = key) (items (AT a nd ks)) = None"
            by (auto simp: find_None_iff)
          moreover have "get_loop K h a key (H key) s = Some None"
            using True bvp kv d m(1) False by (subst get_loop.simps) (simp add: bz pz iv Let_def)
          ultimately show ?thesis by simp
        next
          case bpp: True
          then have slp: "slots bp = lo bp p @ p # hi bp p" by (simp add: slots_lo_hi [OF p])
          from kids_split [OF wk [unfolded slp]] obtain pre c post where
            ks: "ks = pre @ c # post" and lp: "length pre = length (lo bp p)" and
            rpre: "list_all2 (kidR K H s P) (lo bp p) pre" and rc: "kidR K H s P p c" and
            rpost: "list_all2 (kidR K H s P) (hi bp p) post" by blast
          have c: "c \<in> set ks" by (simp add: ks)
          have pc: "ptrs nd ! length (lo bp p) = addr c" and ipl: "length (lo bp p) < length (ptrs nd)"
            using lp by (simp_all add: pt ks nth_append)
          have npre: "\<And>k v. k \<in> set pre \<Longrightarrow> v \<in> set (items k) \<Longrightarrow> K v \<noteq> key"
            using offkids [OF rpre lo_hi_notin(1)] .
          have npost: "\<And>k v. k \<in> set post \<Longrightarrow> v \<in> set (items k) \<Longrightarrow> K v \<noteq> key"
            using offkids [OF rpost lo_hi_notin(2)] .
          have "get_loop K h (addr c) key (H key) (s + 5) = Some (find (\<lambda>v. K v = key) (items c))"
          proof (rule AT.IH [OF c])
            show "repr h c" using AT.prems(1) c by simp
            show "wf_tree K H (s + 5) (\<lambda>x. P x \<and> chunk x s = p) c" using rc by simp
            show "distinct (map K (items c))" using AT.prems(3) by (simp add: ks)
            show "P (H key) \<and> chunk (H key) s = p" using AT.prems(4) by (simp add: p_def)
          qed
          then have "get_loop K h a key (H key) s = Some (find (\<lambda>v. K v = key) (items c))"
            using True bvp kv d m(1) bpp pc ipl
            by (subst get_loop.simps) (simp add: bz pz iv ip Let_def bitsPerItemNode_def)
          moreover have "find (\<lambda>v. K v = key) (items (AT a nd ks)) = find (\<lambda>v. K v = key) (items c)"
          proof -
            have 1: "find (\<lambda>v. K v = key) (vals nd) = None" using nv by (auto simp: find_None_iff)
            have 2: "find (\<lambda>v. K v = key) (concat (map items pre)) = None"
              using npre by (auto simp: find_None_iff)
            have 3: "find (\<lambda>v. K v = key) (concat (map items post)) = None"
              using npost by (auto simp: find_None_iff)
            show ?thesis by (simp add: ks find_append 1 2 3 split: option.splits)
          qed
          ultimately show ?thesis by simp
        qed
      qed
    qed
  qed
qed

lemma growsD:
  assumes "grows G h t h' t'"
  shows "repr h' t'" and "distinct (gaddrs G t')" and "generation (node t') = G"
    and "length h \<le> length h'"
    and "\<And>b. b < length h \<Longrightarrow> b \<notin> set (gaddrs G t) \<Longrightarrow> h' ! b = h ! b"
    and "set (addrs t') \<subseteq> set (addrs t) \<union> {length h..<length h'}"
    and "set (gaddrs G t') \<subseteq> set (gaddrs G t) \<union> {length h..<length h'}"
    and "generation (node t) = G \<Longrightarrow> addr t' = addr t"
  using assms unfolding grows_def by blast+

lemma grows_trans:
  assumes "grows G h t h1 t1" "grows G h1 t1 h2 t2"
  shows "grows G h t h2 t2"
proof -
  from assms have l1: "length h \<le> length h1" and l2: "length h1 \<le> length h2"
    by (simp_all add: grows_def)
  have iv: "{length h..<length h1} \<union> {length h1..<length h2} = {length h..<length h2}"
    using l1 l2 by auto
  have f: "\<forall>b<length h. b \<notin> set (gaddrs G t) \<longrightarrow> h2 ! b = h ! b"
  proof (intro allI impI)
    fix b assume b: "b < length h" "b \<notin> set (gaddrs G t)"
    with assms(1) have 1: "h1 ! b = h ! b" and "b \<notin> set (gaddrs G t1)"
      by (auto simp: grows_def)
    moreover from b assms(1) have "b < length h1" by (simp add: grows_def)
    ultimately show "h2 ! b = h ! b" using assms(2) by (simp add: grows_def)
  qed
  from assms have a1: "set (addrs t1) \<subseteq> set (addrs t) \<union> {length h..<length h1}"
    and a2: "set (addrs t2) \<subseteq> set (addrs t1) \<union> {length h1..<length h2}"
    and g1: "set (gaddrs G t1) \<subseteq> set (gaddrs G t) \<union> {length h..<length h1}"
    and g2: "set (gaddrs G t2) \<subseteq> set (gaddrs G t1) \<union> {length h1..<length h2}"
    by (simp_all add: grows_def)
  have a: "set (addrs t2) \<subseteq> set (addrs t) \<union> {length h..<length h2}"
    using a1 a2 unfolding iv [symmetric] by blast
  have g: "set (gaddrs G t2) \<subseteq> set (gaddrs G t) \<union> {length h..<length h2}"
    using g1 g2 unfolding iv [symmetric] by blast
  from assms have "generation (node t) = G \<longrightarrow> addr t2 = addr t"
    and "generation (node t2) = G" and "repr h2 t2" and "distinct (gaddrs G t2)"
    by (simp_all add: grows_def)
  with l1 l2 f a g show ?thesis unfolding grows_def by simp
qed

lemma path_copy_tree:
  assumes "repr h (AT a nd ks)" "distinct (gaddrs G (AT a nd ks))"
  shows "\<exists>h1 a1. path_copy h G a = Some (h1, a1) \<and>
           grows G h (AT a nd ks) h1 (AT a1 (nd\<lparr>generation := G\<rparr>) ks)"
proof (cases "generation nd = G")
  case True
  then have "nd\<lparr>generation := G\<rparr> = nd" by simp
  moreover from assms(1) True have "path_copy h G a = Some (h, a)"
    by (simp add: path_copy_def deref_def)
  ultimately show ?thesis using assms True by (auto simp: grows_def)
next
  case False
  let ?h1 = "h @ [nd\<lparr>generation := G\<rparr>]"
  from assms(1) False have pc: "path_copy h G a = Some (?h1, length h)"
    by (simp add: path_copy_def deref_def dup_def)
  have r: "\<And>k. k \<in> set ks \<Longrightarrow> repr ?h1 k"
  proof -
    fix k assume "k \<in> set ks"
    with assms(1) have "repr h k" by simp
    then show "repr ?h1 k"
      by (rule repr_frame) (auto simp: nth_append dest: addrs_lt [OF \<open>repr h k\<close>])
  qed
  have lt: "\<And>k b. k \<in> set ks \<Longrightarrow> b \<in> set (addrs k) \<Longrightarrow> b < length h"
    using assms(1) addrs_lt by fastforce
  have lt': "\<And>k b. k \<in> set ks \<Longrightarrow> b \<in> set (gaddrs G k) \<Longrightarrow> b < length h"
    using lt gaddrs_subset by blast
  have "repr ?h1 (AT (length h) (nd\<lparr>generation := G\<rparr>) ks)"
    using assms(1) r by simp
  moreover have "distinct (gaddrs G (AT (length h) (nd\<lparr>generation := G\<rparr>) ks))"
    using assms(2) False lt' by auto
  ultimately have "grows G h (AT a nd ks) ?h1 (AT (length h) (nd\<lparr>generation := G\<rparr>) ks)"
    using False unfolding grows_def by (auto simp: nth_append)
  with pc show ?thesis by blast
qed

lemma kids_update:
  fixes pre mid post mid' :: "'i atree list"
  assumes r: "repr h1 (AT a1 nd1 (pre @ mid @ post))"
    and g1: "generation nd1 = G"
    and d: "distinct (gaddrs G (AT a1 nd1 (pre @ mid @ post)))"
    and len: "length h1 \<le> length h2"
    and fr: "\<And>b. b < length h1 \<Longrightarrow> b \<notin> set (concat (map (gaddrs G) mid)) \<Longrightarrow> h2 ! b = h1 ! b"
    and rm: "\<And>k. k \<in> set mid' \<Longrightarrow> repr h2 k"
    and am: "set (concat (map addrs mid')) \<subseteq> set (concat (map addrs mid)) \<union> {length h1..<length h2}"
    and gm: "set (concat (map (gaddrs G) mid')) \<subseteq> set (concat (map (gaddrs G) mid)) \<union> {length h1..<length h2}"
    and dm: "distinct (concat (map (gaddrs G) mid'))"
    and p': "ptrs nd' = map addr (pre @ mid' @ post)" and g': "generation nd' = G"
  shows "grows G h1 (AT a1 nd1 (pre @ mid @ post)) (h2[a1 := nd']) (AT a1 nd' (pre @ mid' @ post))"
    and "h2 ! a1 = nd1"
proof -
  let ?ks = "pre @ mid @ post"
  from r have a1: "a1 < length h1" and ha1: "h1 ! a1 = nd1" by simp_all
  have rk: "\<And>k. k \<in> set ?ks \<Longrightarrow> repr h1 k" using r by simp
  have ltk: "\<And>k b. k \<in> set ?ks \<Longrightarrow> b \<in> set (addrs k) \<Longrightarrow> b < length h1"
    using rk addrs_lt by blast
  have a1g: "\<And>k. k \<in> set ?ks \<Longrightarrow> a1 \<notin> set (gaddrs G k)"
    using d g1 by auto
  have a1k: "\<And>k. k \<in> set ?ks \<Longrightarrow> a1 \<notin> set (addrs k)"
  proof
    fix k assume k: "k \<in> set ?ks" and "a1 \<in> set (addrs k)"
    with repr_gaddrs [OF rk [OF k] this(2)] ha1 g1 have "a1 \<in> set (gaddrs G k)" by simp
    with a1g [OF k] show False by simp
  qed
  have a1m: "a1 \<notin> set (concat (map (gaddrs G) mid))" using a1g by auto
  show h2a1: "h2 ! a1 = nd1" using fr [OF a1 a1m] ha1 by simp
  have dpm: "\<And>k b. k \<in> set pre \<union> set post \<Longrightarrow> b \<in> set (gaddrs G k) \<Longrightarrow>
      b \<notin> set (concat (map (gaddrs G) mid))"
    using d by (auto split: if_splits)
  have keep: "\<And>k. k \<in> set pre \<union> set post \<Longrightarrow> repr h2 k"
  proof -
    fix k assume k: "k \<in> set pre \<union> set post"
    then have k': "k \<in> set ?ks" by auto
    show "repr h2 k"
    proof (rule repr_frame [OF rk [OF k'] len])
      fix b assume b: "b \<in> set (addrs k)"
      have "b \<notin> set (concat (map (gaddrs G) mid))"
      proof
        assume "b \<in> set (concat (map (gaddrs G) mid))"
        then obtain m where m: "m \<in> set mid" "b \<in> set (gaddrs G m)" by auto
        then have "m \<in> set ?ks" by simp
        from gaddrs_gen [OF rk [OF this] m(2)] have "generation (h1 ! b) = G" .
        from repr_gaddrs [OF rk [OF k'] b this] have "b \<in> set (gaddrs G k)" .
        from dpm [OF k this] m show False by auto
      qed
      with fr [OF ltk [OF k' b]] show "h2 ! b = h1 ! b" by simp
    qed
  qed
  have a1m': "\<And>k. k \<in> set mid' \<Longrightarrow> a1 \<notin> set (addrs k)"
  proof
    fix k assume k: "k \<in> set mid'" and "a1 \<in> set (addrs k)"
    then have "a1 \<in> set (concat (map addrs mid'))" by auto
    with am a1 have "a1 \<in> set (concat (map addrs mid))" by auto
    then show False using a1k by auto
  qed
  have rr: "\<And>k. k \<in> set (pre @ mid' @ post) \<Longrightarrow> repr (h2[a1 := nd']) k"
  proof -
    fix k assume k: "k \<in> set (pre @ mid' @ post)"
    then have 1: "repr h2 k" using keep rm by auto
    from k have 2: "a1 \<notin> set (addrs k)" using a1k a1m' by auto
    have 3: "\<And>b. b \<in> set (addrs k) \<Longrightarrow> h2[a1 := nd'] ! b = h2 ! b"
    proof -
      fix b assume "b \<in> set (addrs k)"
      with 2 have "a1 \<noteq> b" by auto
      then show "h2[a1 := nd'] ! b = h2 ! b" by simp
    qed
    show "repr (h2[a1 := nd']) k"
      by (rule repr_frame [OF 1 _ 3]) simp_all
  qed
  have rep: "repr (h2[a1 := nd']) (AT a1 nd' (pre @ mid' @ post))"
    using a1 len rr p' by simp
  have gsub: "set (gaddrs G (AT a1 nd' (pre @ mid' @ post))) \<subseteq>
      set (gaddrs G (AT a1 nd1 ?ks)) \<union> {length h1..<length (h2[a1 := nd'])}"
    using gm g' g1 by auto
  have asub: "set (addrs (AT a1 nd' (pre @ mid' @ post))) \<subseteq>
      set (addrs (AT a1 nd1 ?ks)) \<union> {length h1..<length (h2[a1 := nd'])}"
    using am by auto
  have ltg: "\<And>k b. k \<in> set ?ks \<Longrightarrow> b \<in> set (gaddrs G k) \<Longrightarrow> b < length h1"
    using ltk gaddrs_subset by blast
  have dis: "distinct (gaddrs G (AT a1 nd' (pre @ mid' @ post)))"
  proof -
    define A where "A = concat (map (gaddrs G) pre)"
    define M where "M = concat (map (gaddrs G) mid)"
    define M' where "M' = concat (map (gaddrs G) mid')"
    define B where "B = concat (map (gaddrs G) post)"
    from d g1 have old: "distinct A" "distinct B" "set A \<inter> set B = {}"
      "set A \<inter> set M = {}" "set M \<inter> set B = {}"
      by (auto simp: A_def B_def M_def)
    have lt: "\<And>b. b \<in> set A \<union> set B \<Longrightarrow> b < length h1"
      using ltg by (auto simp: A_def B_def)
    have 1: "a1 \<notin> set A" "a1 \<notin> set M'" "a1 \<notin> set B"
    proof -
      have "\<And>k. k \<in> set (pre @ mid' @ post) \<Longrightarrow> a1 \<notin> set (gaddrs G k)"
        using a1k a1m' gaddrs_subset by fastforce
      then show "a1 \<notin> set A" "a1 \<notin> set M'" "a1 \<notin> set B"
        by (auto simp: A_def M'_def B_def)
    qed
    have 2: "set A \<inter> set M' = {}" "set M' \<inter> set B = {}"
    proof -
      have "\<And>b. b \<in> set M' \<Longrightarrow> b \<notin> set A \<and> b \<notin> set B"
      proof -
        fix b assume b: "b \<in> set M'"
        show "b \<notin> set A \<and> b \<notin> set B"
        proof (cases "b < length h1")
          case True
          with b gm have "b \<in> set M" by (auto simp: M_def M'_def)
          with old show ?thesis by auto
        next
          case False
          with lt show ?thesis by blast
        qed
      qed
      then show "set A \<inter> set M' = {}" "set M' \<inter> set B = {}" by auto
    qed
    have "gaddrs G (AT a1 nd' (pre @ mid' @ post)) = a1 # A @ M' @ B"
      by (simp add: g' A_def M'_def B_def)
    moreover have "distinct (a1 # A @ M' @ B)"
      using 1 2 old dm by (simp add: M'_def [symmetric] Int_Un_distrib Int_commute)
    ultimately show ?thesis by simp
  qed
  have frame: "\<forall>b<length h1. b \<notin> set (gaddrs G (AT a1 nd1 ?ks)) \<longrightarrow> (h2[a1 := nd']) ! b = h1 ! b"
    using fr g1 by auto
  show "grows G h1 (AT a1 nd1 ?ks) (h2[a1 := nd']) (AT a1 nd' (pre @ mid' @ post))"
    unfolding grows_def using len frame asub gsub g' rep dis by simp
qed

lemma img_disj: "(f ` X \<inter> f ` Y = {}) = (\<forall>x\<in>X. \<forall>y\<in>Y. f x \<noteq> f y)"
  by blast

lemma distinct_keys_app3:
  "distinct (map K (A @ B @ C)) \<longleftrightarrow>
     distinct (map K A) \<and> distinct (map K B) \<and> distinct (map K C) \<and>
     (\<forall>x\<in>set A. \<forall>y\<in>set B. K x \<noteq> K y) \<and>
     (\<forall>x\<in>set A. \<forall>y\<in>set C. K x \<noteq> K y) \<and>
     (\<forall>x\<in>set B. \<forall>y\<in>set C. K x \<noteq> K y)"
proof -
  have "distinct (map K (A @ B @ C)) \<longleftrightarrow>
     distinct (map K A) \<and> distinct (map K B) \<and> distinct (map K C) \<and>
     K ` set A \<inter> K ` set B = {} \<and> K ` set A \<inter> K ` set C = {} \<and> K ` set B \<inter> K ` set C = {}"
    by (simp add: Int_Un_distrib) blast
  then show ?thesis unfolding img_disj .
qed

lemma keys_replace:
  assumes "distinct (map K (A @ B @ C))" "distinct (map K B')"
    and "set B' = insert item {x \<in> set B. K x \<noteq> K item}"
    and "\<And>x. x \<in> set A \<union> set C \<Longrightarrow> K x \<noteq> K item"
  shows "distinct (map K (A @ B' @ C))"
    and "set (A @ B' @ C) = insert item {x \<in> set (A @ B @ C). K x \<noteq> K item}"
proof -
  from assms(1) have old: "distinct (map K A)" "distinct (map K C)"
     "\<And>x y. x \<in> set A \<Longrightarrow> y \<in> set B \<Longrightarrow> K x \<noteq> K y"
     "\<And>x y. x \<in> set A \<Longrightarrow> y \<in> set C \<Longrightarrow> K x \<noteq> K y"
     "\<And>x y. x \<in> set B \<Longrightarrow> y \<in> set C \<Longrightarrow> K x \<noteq> K y"
    unfolding distinct_keys_app3 by blast+
  have 1: "\<And>x y. x \<in> set A \<Longrightarrow> y \<in> set B' \<Longrightarrow> K x \<noteq> K y"
  proof -
    fix x y assume x: "x \<in> set A" and "y \<in> set B'"
    then have "y = item \<or> y \<in> set B" using assms(3) by auto
    then show "K x \<noteq> K y" using old(3) [OF x] assms(4) [of x] x by auto
  qed
  have 2: "\<And>x y. x \<in> set B' \<Longrightarrow> y \<in> set C \<Longrightarrow> K x \<noteq> K y"
  proof -
    fix x y assume y: "y \<in> set C" and "x \<in> set B'"
    then have "x = item \<or> x \<in> set B" using assms(3) by auto
    then show "K x \<noteq> K y" using old(5) [OF _ y] assms(4) [of y] y by fastforce
  qed
  show "distinct (map K (A @ B' @ C))"
    unfolding distinct_keys_app3 using old(1,2,4) 1 2 assms(2) by blast
  have "\<And>x. x \<in> set A \<Longrightarrow> K x \<noteq> K item" "\<And>x. x \<in> set C \<Longrightarrow> K x \<noteq> K item"
    using assms(4) by auto
  then show "set (A @ B' @ C) = insert item {x \<in> set (A @ B @ C). K x \<noteq> K item}"
    unfolding set_append assms(3) by blast
qed

lemma keys_remove:
  assumes "distinct (map K (A @ B @ C))" "distinct (map K B')"
    and "set B' = {x \<in> set B. K x \<noteq> key}"
    and "\<And>x. x \<in> set A \<union> set C \<Longrightarrow> K x \<noteq> key"
  shows "distinct (map K (A @ B' @ C))"
    and "set (A @ B' @ C) = {x \<in> set (A @ B @ C). K x \<noteq> key}"
proof -
  from assms(1) have old: "distinct (map K A)" "distinct (map K C)"
     "\<And>x y. x \<in> set A \<Longrightarrow> y \<in> set B \<Longrightarrow> K x \<noteq> K y"
     "\<And>x y. x \<in> set A \<Longrightarrow> y \<in> set C \<Longrightarrow> K x \<noteq> K y"
     "\<And>x y. x \<in> set B \<Longrightarrow> y \<in> set C \<Longrightarrow> K x \<noteq> K y"
    unfolding distinct_keys_app3 by blast+
  have sub: "\<And>x. x \<in> set B' \<Longrightarrow> x \<in> set B" using assms(3) by auto
  show "distinct (map K (A @ B' @ C))"
    unfolding distinct_keys_app3 using old sub assms(2) by blast
  have "\<And>x. x \<in> set A \<Longrightarrow> K x \<noteq> key" "\<And>x. x \<in> set C \<Longrightarrow> K x \<noteq> key"
    using assms(4) by auto
  then show "set (A @ B' @ C) = {x \<in> set (A @ B @ C). K x \<noteq> key}"
    unfolding set_append assms(3) by blast
qed

lemma distinct_key_eq:
  "distinct (map K xs) \<Longrightarrow> x \<in> set xs \<Longrightarrow> y \<in> set xs \<Longrightarrow> K x = K y \<Longrightarrow> x = y"
  by (meson distinct_map inj_onD)

lemma overflow_put_set:
  "distinct (map K vs) \<Longrightarrow> set (overflow_put K item (K item) vs) = insert item {x \<in> set vs. K x \<noteq> K item}"
  by (induction vs) (auto simp: image_iff)

lemma overflow_put_keys:
  "set (map K (overflow_put K item (K item) vs)) = insert (K item) (set (map K vs))"
  by (induction vs) auto

lemma overflow_put_distinct:
  "distinct (map K vs) \<Longrightarrow> distinct (map K (overflow_put K item (K item) vs))"
proof (induction vs)
  case Nil
  then show ?case by simp
next
  case (Cons v vs)
  show ?case
  proof (cases "K v = K item")
    case True
    with Cons.prems show ?thesis by simp
  next
    case False
    have "K v \<notin> set (map K (overflow_put K item (K item) vs))"
      unfolding overflow_put_keys using Cons.prems False by auto
    with Cons False show ?thesis by simp
  qed
qed

lemma overflow_put_ne: "overflow_put K item key vs \<noteq> []"
  by (cases vs) auto

lemma wf_generation [simp]: "wf_tree K H s P (AT a (nd\<lparr>generation := G\<rparr>) ks) = wf_tree K H s P (AT a' nd ks)"
  by simp

lemma slots_0 [simp]: "slots 0 = []"
  by (simp add: slots_Nil)

lemma root_update:
  assumes "repr h1 (AT a1 nd1 ks)" "generation nd1 = G" "distinct (gaddrs G (AT a1 nd1 ks))"
    and "ptrs nd' = ptrs nd1" "generation nd' = G"
  shows "grows G h1 (AT a1 nd1 ks) (h1[a1 := nd']) (AT a1 nd' ks)"
proof -
  have "grows G h1 (AT a1 nd1 (ks @ [] @ [])) (h1[a1 := nd']) (AT a1 nd' (ks @ [] @ []))"
    by (rule kids_update(1) [where G = G]) (use assms in simp_all)
  then show ?thesis by simp
qed

lemma with_item_tree:
  assumes "repr h t" "distinct (gaddrs G t)" "wf_tree K H s P t" "distinct (map K (items t))"
    and "P (H (K item))"
  shows "\<exists>h' t'. with_item K h (addr t) G item (K item) (H (K item)) s = Some (h', addr t') \<and>
           grows G h t h' t' \<and> wf_tree K H s P t' \<and> distinct (map K (items t')) \<and>
           set (items t') = insert item {x \<in> set (items t). K x \<noteq> K item} \<and>
           vals (node t') \<noteq> []"
  using assms
proof (induction "40 - s" arbitrary: s t h P rule: less_induct)
  case less
  obtain a nd ks where t: "t = AT a nd ks" by (cases t)
  define key where "key = K item"
  define nd1 where "nd1 = nd\<lparr>generation := G\<rparr>"
  from path_copy_tree [OF less.prems(1,2) [unfolded t]] obtain h1 a1 where
    pc: "path_copy h G a = Some (h1, a1)" and
    g1: "grows G h (AT a nd ks) h1 (AT a1 nd1 ks)" unfolding nd1_def by blast
  note r1 = growsD(1) [OF g1] and d1 = growsD(2) [OF g1]
  have gen1: "generation nd1 = G" by (simp add: nd1_def)
  have w1: "wf_tree K H s P (AT a1 nd1 ks)" using less.prems(3) by (simp add: t nd1_def)
  have it1: "items (AT a1 nd1 ks) = items t" by (simp add: t nd1_def)
  have dk1: "distinct (map K (items (AT a1 nd1 ks)))" using less.prems(4) it1 by simp
  have h1a1: "h1 ! a1 = nd1" "a1 < length h1" using r1 by simp_all
  have pt1: "ptrs nd1 = map addr ks" using r1 by simp
  have Pk: "P (H key)" using less.prems(5) by (simp add: key_def)
  have wP: "\<forall>v\<in>set (vals nd1). P (H (K v))" using w1 by simp
  have goal: "\<exists>h' t'. with_item K h a G item key (H key) s = Some (h', addr t') \<and>
           grows G h1 (AT a1 nd1 ks) h' t' \<and> wf_tree K H s P t' \<and> distinct (map K (items t')) \<and>
           set (items t') = insert item {x \<in> set (items (AT a1 nd1 ks)). K x \<noteq> key} \<and>
           vals (node t') \<noteq> []"
  proof (cases "s \<ge> 32")
    case True
    with w1 have ks: "ks = []" and bz: "bmVal nd1 = 0" "bmPtr nd1 = 0" by simp_all
    define nd' where "nd' = nd1\<lparr>vals := overflow_put K item key (vals nd1)\<rparr>"
    have step: "with_item K h a G item key (H key) s = Some (h1[a1 := nd'], a1)"
      using True by (subst with_item.simps) (simp add: pc h1a1 nd'_def Let_def)
    have gr: "grows G h1 (AT a1 nd1 ks) (h1[a1 := nd']) (AT a1 nd' ks)"
      by (rule root_update [OF r1 gen1 d1]) (simp_all add: nd'_def gen1)
    have dv: "distinct (map K (vals nd1))" using dk1 by (simp add: ks)
    have st: "set (vals nd') = insert item {x \<in> set (vals nd1). K x \<noteq> key}"
      using overflow_put_set [OF dv, of item] by (simp add: nd'_def key_def)
    have "wf_tree K H s P (AT a1 nd' ks)"
      using True bz ks wP Pk st by (auto simp: nd'_def key_def)
    moreover have "distinct (map K (items (AT a1 nd' ks)))"
      using overflow_put_distinct [OF dv, of item] by (simp add: ks nd'_def key_def)
    moreover have "set (items (AT a1 nd' ks)) = insert item {x \<in> set (items (AT a1 nd1 ks)). K x \<noteq> key}"
      using st by (simp add: ks)
    moreover have "vals (node (AT a1 nd' ks)) \<noteq> []"
      by (simp add: nd'_def overflow_put_ne)
    ultimately show ?thesis using step gr
      by (intro exI [of _ "h1[a1 := nd']"] exI [of _ "AT a1 nd' ks"]) simp
  next
    case False
    then have s32: "s < 32" by simp
    define p where "p = chunk (H key) s"
    have p: "p < 32" by (simp add: p_def chunk_lt)
    define bv where "bv = bmVal nd1"
    define bp where "bp = bmPtr nd1"
    define f where "f = (\<lambda>v. chunk (H (K v)) s)"
    define vs where "vs = vals nd1"
    define iv where "iv = length (lo bv p)"
    define ip where "ip = length (lo bp p)"
    from w1 s32 have
      wv: "map f vs = slots bv" and
      ws: "set (slots bp) \<subseteq> set (slots bv)" and
      wk: "list_all2 (kidR K H s P) (slots bp) ks"
      by (simp_all add: bv_def bp_def f_def vs_def)
    have nb: "node_bit (H key) s = 2 ^ p" by (simp add: node_bit_chunk p_def)
    have ivc: "OnesCount32 (bmVal nd1 AND (2 ^ p - 1)) = iv"
      by (simp add: OnesCount32_lo [OF p] bv_def iv_def)
    have ipc: "OnesCount32 (bmPtr nd1 AND (2 ^ p - 1)) = ip"
      by (simp add: OnesCount32_lo [OF p] bp_def ip_def)
    have bz: "(bmVal nd1 AND 2 ^ p = 0) \<longleftrightarrow> \<not> bit bv p"
      by (simp add: and_bit_zero [OF p] bv_def)
    have pz: "(bmPtr nd1 AND 2 ^ p = 0) \<longleftrightarrow> \<not> bit bp p"
      by (simp add: and_bit_zero [OF p] bp_def)
    have keyp: "\<And>v. K v = key \<Longrightarrow> f v = p" by (simp add: f_def p_def)
    have fitem: "f item = p" by (simp add: f_def p_def key_def)
    have offkids: "\<And>qs ks' k v. list_all2 (kidR K H s P) qs ks' \<Longrightarrow> p \<notin> set qs \<Longrightarrow>
        k \<in> set ks' \<Longrightarrow> v \<in> set (items k) \<Longrightarrow> K v \<noteq> key"
      using kids_off_path [where K = K and H = H and s = s and P = P and p = p] p_def by blast
    have P': "P (H key) \<and> chunk (H key) s = p" using Pk by (simp add: p_def)
    show ?thesis
    proof (cases "bit bv p")
      case False
      with ws have nbp: "\<not> bit bp p" by (auto simp: set_slots)
      from False have sl: "slots bv = lo bv p @ hi bv p" by (simp add: slots_lo_hi [OF p])
      note m = map_eq_nomid [OF wv [unfolded sl] lo_hi_notin]
      define nd' where "nd' = nd1\<lparr>bmVal := bmVal nd1 OR 2 ^ p,
                                     vals := take iv (vals nd1) @ item # drop iv (vals nd1)\<rparr>"
      have step: "with_item K h a G item key (H key) s = Some (h1[a1 := nd'], a1)"
        using s32 False m(2) [folded iv_def, unfolded vs_def]
        by (subst with_item.simps) (simp add: pc h1a1 nb ivc bz Let_def nd'_def)
      have gr: "grows G h1 (AT a1 nd1 ks) (h1[a1 := nd']) (AT a1 nd' ks)"
        by (rule root_update [OF r1 gen1 d1]) (simp_all add: nd'_def gen1)
      have "map f (vals nd') = lo bv p @ p # hi bv p"
        using m(3,4) fitem by (simp add: nd'_def iv_def vs_def)
      then have 1: "map f (vals nd') = slots (bmVal nd')"
        by (simp add: nd'_def slots_set_bit [OF p] bv_def)
      have 2: "set (slots (bmPtr nd')) \<subseteq> set (slots (bmVal nd'))"
        using ws by (auto simp: nd'_def set_slots bit_or_bit [OF p] bp_def bv_def)
      have 3: "\<forall>v\<in>set (vals nd'). P (H (K v))"
        using wP Pk by (auto simp: nd'_def key_def vs_def dest: in_set_takeD in_set_dropD)
      have wf_tree': "wf_tree K H s P (AT a1 nd' ks)"
        using s32 1 2 3 wk by (simp add: f_def nd'_def bp_def)
      have nv: "\<And>v. v \<in> set vs \<Longrightarrow> K v \<noteq> key" using m(1) keyp by blast
      from nbp have "p \<notin> set (slots bp)" by (simp add: set_slots)
      note nk = offkids [OF wk this]
      define A where "A = take iv vs"
      define C where "C = drop iv vs @ concat (map items ks)"
      have i1: "items (AT a1 nd1 ks) = A @ [] @ C"
        by (simp add: A_def C_def vs_def)
      have i2: "items (AT a1 nd' ks) = A @ [item] @ C"
        by (simp add: A_def C_def nd'_def vs_def)
      have nAC: "\<And>x. x \<in> set A \<union> set C \<Longrightarrow> K x \<noteq> K item"
        using nv nk by (auto simp: A_def C_def key_def dest: in_set_takeD in_set_dropD)
      note kr = keys_replace [OF dk1 [unfolded i1], of "[item]" item, OF _ _ nAC, folded i1 i2]
      have "distinct (map K (items (AT a1 nd' ks)))" by (rule kr(1)) simp_all
      moreover have "set (items (AT a1 nd' ks)) = insert item {x \<in> set (items (AT a1 nd1 ks)). K x \<noteq> key}"
        unfolding key_def by (rule kr(2)) simp_all
      moreover have "vals (node (AT a1 nd' ks)) \<noteq> []" by (simp add: nd'_def)
      ultimately show ?thesis using step gr wf_tree'
        by (intro exI [of _ "h1[a1 := nd']"] exI [of _ "AT a1 nd' ks"]) simp
    next
      case bvp: True
      then have sl: "slots bv = lo bv p @ p # hi bv p" by (simp add: slots_lo_hi [OF p])
      note m = map_eq_mid [OF wv [unfolded sl] lo_hi_notin, folded iv_def]
      have vsplit: "vs = take iv vs @ vs ! iv # drop (Suc iv) vs"
        using m(1) by (simp add: id_take_nth_drop [symmetric])
      have ivl: "iv < length (vals nd1)" using m(1) by (simp add: vs_def)
      show ?thesis
      proof (cases "K (vs ! iv) = key")
        case kv: True
        define nd' where "nd' = nd1\<lparr>vals := (vals nd1)[iv := item]\<rparr>"
        have step: "with_item K h a G item key (H key) s = Some (h1[a1 := nd'], a1)"
          using s32 bvp ivl kv [unfolded vs_def]
          by (subst with_item.simps) (simp add: pc h1a1 nb ivc bz Let_def nd'_def)
        have gr: "grows G h1 (AT a1 nd1 ks) (h1[a1 := nd']) (AT a1 nd' ks)"
          by (rule root_update [OF r1 gen1 d1]) (simp_all add: nd'_def gen1)
        have v': "vals nd' = take iv vs @ item # drop (Suc iv) vs"
          using m(1) by (simp add: nd'_def vs_def upd_conv_take_nth_drop)
        have "map f (vals nd') = (map f vs)[iv := f item]"
          by (simp add: nd'_def vs_def map_update)
        also have "\<dots> = map f vs"
          using m(2) fitem by (metis list_update_id nth_map m(1))
        finally have 1: "map f (vals nd') = slots (bmVal nd')"
          using wv by (simp add: nd'_def bv_def)
        have 3: "\<forall>v\<in>set (vals nd'). P (H (K v))"
          using wP Pk unfolding v' by (auto simp: key_def vs_def dest: in_set_takeD in_set_dropD)
        have wf_tree': "wf_tree K H s P (AT a1 nd' ks)"
          using s32 1 3 ws wk by (simp add: f_def nd'_def bp_def bv_def)
        define A where "A = take iv vs"
        define C where "C = drop (Suc iv) vs @ concat (map items ks)"
        have i1: "items (AT a1 nd1 ks) = A @ [vs ! iv] @ C"
          using vsplit by (simp add: A_def C_def vs_def [symmetric])
        have i2: "items (AT a1 nd' ks) = A @ [item] @ C"
          by (simp add: A_def C_def v')
        have nAC: "\<And>x. x \<in> set A \<union> set C \<Longrightarrow> K x \<noteq> K item"
          using dk1 kv unfolding i1 distinct_keys_app3 key_def by auto
        note kr = keys_replace [OF dk1 [unfolded i1], of "[item]" item, OF _ _ nAC, folded i1 i2]
        have "distinct (map K (items (AT a1 nd' ks)))" by (rule kr(1)) (auto simp: kv key_def [symmetric])
        moreover have "set (items (AT a1 nd' ks)) = insert item {x \<in> set (items (AT a1 nd1 ks)). K x \<noteq> key}"
          unfolding key_def by (rule kr(2)) (auto simp: kv key_def [symmetric])
        moreover have "vals (node (AT a1 nd' ks)) \<noteq> []" by (simp add: v')
        ultimately show ?thesis using step gr wf_tree'
          by (intro exI [of _ "h1[a1 := nd']"] exI [of _ "AT a1 nd' ks"]) simp
      next
        case kv: False
        have nv: "\<And>v. v \<in> set vs \<Longrightarrow> K v \<noteq> key" using m(3) keyp kv by blast
        show ?thesis
        proof (cases "bit bp p")
          case bpp: True
          then have slp: "slots bp = lo bp p @ p # hi bp p" by (simp add: slots_lo_hi [OF p])
          from kids_split [OF wk [unfolded slp]] obtain pre c post where
            ks: "ks = pre @ c # post" and lp: "length pre = ip" and
            rpre: "list_all2 (kidR K H s P) (lo bp p) pre" and rc: "kidR K H s P p c" and
            rpost: "list_all2 (kidR K H s P) (hi bp p) post" unfolding ip_def by blast
          have ks3: "ks = pre @ [c] @ post" by (simp add: ks)
          have pc': "ptrs nd1 ! ip = addr c" and ipl: "ip < length (ptrs nd1)"
            using lp by (auto simp: pt1 ks nth_append)
          have rec: "\<exists>h2 c'. with_item K h1 (addr c) G item (K item) (H (K item)) (s + 5) = Some (h2, addr c') \<and>
              grows G h1 c h2 c' \<and> wf_tree K H (s + 5) (\<lambda>x. P x \<and> chunk x s = p) c' \<and>
              distinct (map K (items c')) \<and>
              set (items c') = insert item {x \<in> set (items c). K x \<noteq> K item} \<and>
              vals (node c') \<noteq> []"
          proof (rule less.hyps)
            show "40 - (s + 5) < 40 - s" using s32 by simp
            show "repr h1 c" using r1 by (simp add: ks)
            show "distinct (gaddrs G c)" using d1 by (simp add: ks)
            show "wf_tree K H (s + 5) (\<lambda>x. P x \<and> chunk x s = p) c" using rc by simp
            show "distinct (map K (items c))" using dk1 by (simp add: ks)
            show "P (H (K item)) \<and> chunk (H (K item)) s = p" using P' by (simp add: key_def)
          qed
          then obtain h2 c' where
            rstep: "with_item K h1 (addr c) G item key (H key) (s + 5) = Some (h2, addr c')" and
            rg: "grows G h1 c h2 c'" and rw: "wf_tree K H (s + 5) (\<lambda>x. P x \<and> chunk x s = p) c'" and
            rd: "distinct (map K (items c'))" and
            rs: "set (items c') = insert item {x \<in> set (items c). K x \<noteq> K item}" and
            rn: "vals (node c') \<noteq> []" unfolding key_def by blast
          define nd' where "nd' = nd1\<lparr>ptrs := (ptrs nd1)[ip := addr c']\<rparr>"
          have pn: "ptrs nd' = map addr (pre @ [c'] @ post)"
            using lp by (simp add: nd'_def pt1 ks list_update_append)
          have k1: "repr h1 (AT a1 nd1 (pre @ [c] @ post))" using r1 by (simp add: ks)
          have k3: "distinct (gaddrs G (AT a1 nd1 (pre @ [c] @ post)))" using d1 by (simp add: ks)
          have k5: "\<And>b. b < length h1 \<Longrightarrow> b \<notin> set (concat (map (gaddrs G) [c])) \<Longrightarrow> h2 ! b = h1 ! b"
            using growsD(5) [OF rg] by simp
          have k6: "\<And>k. k \<in> set [c'] \<Longrightarrow> repr h2 k" using growsD(1) [OF rg] by simp
          have k7: "set (concat (map addrs [c'])) \<subseteq> set (concat (map addrs [c])) \<union> {length h1..<length h2}"
            using growsD(6) [OF rg] by simp
          have k8: "set (concat (map (gaddrs G) [c'])) \<subseteq> set (concat (map (gaddrs G) [c])) \<union> {length h1..<length h2}"
            using growsD(7) [OF rg] by simp
          have k9: "distinct (concat (map (gaddrs G) [c']))" using growsD(2) [OF rg] by simp
          have k11: "generation nd' = G" by (simp add: nd'_def gen1)
          note ku = kids_update [OF k1 gen1 k3 growsD(4) [OF rg] k5 k6 k7 k8 k9 pn k11]
          have d2: "deref h2 a1 = Some nd1"
            using ku(2) h1a1(2) growsD(4) [OF rg] by (simp add: deref_def)
          have step: "with_item K h a G item key (H key) s = Some (h2[a1 := nd'], a1)"
            using s32 bvp ivl kv [unfolded vs_def] bpp ipl pc' rstep d2
            by (subst with_item.simps)
               (simp add: pc h1a1 nb ivc ipc bz pz Let_def nd'_def bitsPerItemNode_def)
          have kl: "list_all2 (kidR K H s P) (slots bp) (pre @ [c'] @ post)"
            unfolding slp using rpre rpost rw rn by (auto intro!: list_all2_appendI)
          have wf_tree': "wf_tree K H s P (AT a1 nd' (pre @ [c'] @ post))"
            using s32 wv wP ws kl by (simp add: f_def nd'_def bp_def bv_def vs_def)
          define A where "A = vs @ concat (map items pre)"
          define C where "C = concat (map items post)"
          have i1: "items (AT a1 nd1 ks) = A @ items c @ C"
            by (simp add: A_def C_def vs_def ks)
          have i2: "items (AT a1 nd' (pre @ [c'] @ post)) = A @ items c' @ C"
            by (simp add: A_def C_def nd'_def vs_def)
          have nAC: "\<And>x. x \<in> set A \<union> set C \<Longrightarrow> K x \<noteq> K item"
            using nv offkids [OF rpre lo_hi_notin(1)] offkids [OF rpost lo_hi_notin(2)]
            by (auto simp: A_def C_def key_def)
          note kr = keys_replace [OF dk1 [unfolded i1] rd rs nAC, folded i1 i2]
          have "vals (node (AT a1 nd' (pre @ [c'] @ post))) \<noteq> []"
            using m(1) by (auto simp: nd'_def vs_def)
          then show ?thesis using step ku(1) wf_tree' kr unfolding ks3 [symmetric] key_def
            by (intro exI [of _ "h2[a1 := nd']"] exI [of _ "AT a1 nd' (pre @ [c'] @ post)"]) simp
        next
          case nbp: False
          then have slp: "slots bp = lo bp p @ hi bp p" by (simp add: slots_lo_hi [OF p])
          from wk [unfolded slp] obtain pre post where
            ks: "ks = pre @ post" and rpre: "list_all2 (kidR K H s P) (lo bp p) pre" and
            rpost: "list_all2 (kidR K H s P) (hi bp p) post"
            by (auto simp: list_all2_append1)
          have lp: "length pre = ip" using rpre by (simp add: ip_def list_all2_lengthD)
          have ks3: "ks = pre @ [] @ post" by (simp add: ks)
          have ipl: "ip \<le> length (ptrs nd1)" using lp by (auto simp: pt1 ks)
          define e :: "'a nodeItem" where
            "e = \<lparr>generation = G, bmVal = 0, bmPtr = 0, vals = [], ptrs = []\<rparr>"
          define c0 where "c0 = AT (length h1) e []"
          have rec: "\<exists>h2 c'. with_item K (h1 @ [e]) (addr c0) G item (K item) (H (K item)) (s + 5) = Some (h2, addr c') \<and>
              grows G (h1 @ [e]) c0 h2 c' \<and> wf_tree K H (s + 5) (\<lambda>x. P x \<and> chunk x s = p) c' \<and>
              distinct (map K (items c')) \<and>
              set (items c') = insert item {x \<in> set (items c0). K x \<noteq> K item} \<and>
              vals (node c') \<noteq> []"
          proof (rule less.hyps)
            show "40 - (s + 5) < 40 - s" using s32 by simp
            show "repr (h1 @ [e]) c0" by (simp add: c0_def e_def)
            show "distinct (gaddrs G c0)" by (simp add: c0_def)
            show "wf_tree K H (s + 5) (\<lambda>x. P x \<and> chunk x s = p) c0" by (simp add: c0_def e_def)
            show "distinct (map K (items c0))" by (simp add: c0_def e_def)
            show "P (H (K item)) \<and> chunk (H (K item)) s = p" using P' by (simp add: key_def)
          qed
          then obtain h2 c' where
            rstep: "with_item K (h1 @ [e]) (length h1) G item key (H key) (s + 5) = Some (h2, addr c')" and
            rg: "grows G (h1 @ [e]) c0 h2 c'" and rw: "wf_tree K H (s + 5) (\<lambda>x. P x \<and> chunk x s = p) c'" and
            rd: "distinct (map K (items c'))" and
            rs: "set (items c') = insert item {x \<in> set (items c0). K x \<noteq> K item}" and
            rn: "vals (node c') \<noteq> []" unfolding key_def c0_def by auto
          define nd' where "nd' = nd1\<lparr>ptrs := take ip (ptrs nd1) @ addr c' # drop ip (ptrs nd1),
                                         bmPtr := bmPtr nd1 OR 2 ^ p\<rparr>"
          have pn: "ptrs nd' = map addr (pre @ [c'] @ post)"
            using lp by (simp add: nd'_def pt1 ks)
          have l12: "length h1 \<le> length h2" using growsD(4) [OF rg] by simp
          have k1: "repr h1 (AT a1 nd1 (pre @ [] @ post))" using r1 by (simp add: ks)
          have k3: "distinct (gaddrs G (AT a1 nd1 (pre @ [] @ post)))" using d1 by (simp add: ks)
          have k5: "\<And>b. b < length h1 \<Longrightarrow> b \<notin> set (concat (map (gaddrs G) [])) \<Longrightarrow> h2 ! b = h1 ! b"
            using growsD(5) [OF rg] by (simp add: c0_def nth_append)
          have k6: "\<And>k. k \<in> set [c'] \<Longrightarrow> repr h2 k" using growsD(1) [OF rg] by simp
          have l12s: "length h1 < length h2" using growsD(4) [OF rg] by simp
          have ins: "insert (length h1) {Suc (length h1)..<length h2} = {length h1..<length h2}"
            using l12s by auto
          have "set (addrs c') \<subseteq> insert (length h1) {Suc (length h1)..<length h2}"
            using growsD(6) [OF rg] by (simp add: c0_def)
          then have k7: "set (concat (map addrs [c'])) \<subseteq> set (concat (map addrs [])) \<union> {length h1..<length h2}"
            unfolding ins by simp
          have "set (gaddrs G c') \<subseteq> insert (length h1) {Suc (length h1)..<length h2}"
            using growsD(7) [OF rg] by (simp add: c0_def e_def)
          then have k8: "set (concat (map (gaddrs G) [c'])) \<subseteq> set (concat (map (gaddrs G) [])) \<union> {length h1..<length h2}"
            unfolding ins by simp
          have k9: "distinct (concat (map (gaddrs G) [c']))" using growsD(2) [OF rg] by simp
          have k11: "generation nd' = G" by (simp add: nd'_def gen1)
          note ku = kids_update [OF k1 gen1 k3 l12 k5 k6 k7 k8 k9 pn k11]
          have d2: "deref h2 a1 = Some nd1"
            using ku(2) h1a1(2) l12 by (simp add: deref_def)
          have step: "with_item K h a G item key (H key) s = Some (h2[a1 := nd'], a1)"
            using s32 bvp ivl kv [unfolded vs_def] nbp ipl rstep d2
            by (subst with_item.simps)
               (simp add: pc h1a1 nb ivc ipc bz pz Let_def nd'_def bitsPerItemNode_def e_def)
          have slp': "slots (bmPtr nd') = lo bp p @ p # hi bp p"
            by (simp add: nd'_def slots_set_bit [OF p] bp_def)
          have kl: "list_all2 (kidR K H s P) (slots (bmPtr nd')) (pre @ [c'] @ post)"
            unfolding slp' using rpre rpost rw rn by (auto intro!: list_all2_appendI)
          have ws': "set (slots (bmPtr nd')) \<subseteq> set (slots (bmVal nd'))"
            using ws bvp by (auto simp: nd'_def set_slots bit_or_bit [OF p] bp_def bv_def)
          have wf_tree': "wf_tree K H s P (AT a1 nd' (pre @ [c'] @ post))"
            using s32 wv wP ws' kl by (simp add: f_def nd'_def bv_def vs_def)
          define A where "A = vs @ concat (map items pre)"
          define C where "C = concat (map items post)"
          have i1: "items (AT a1 nd1 ks) = A @ [] @ C"
            by (simp add: A_def C_def vs_def ks)
          have i2: "items (AT a1 nd' (pre @ [c'] @ post)) = A @ items c' @ C"
            by (simp add: A_def C_def nd'_def vs_def)
          have nAC: "\<And>x. x \<in> set A \<union> set C \<Longrightarrow> K x \<noteq> K item"
            using nv offkids [OF rpre lo_hi_notin(1)] offkids [OF rpost lo_hi_notin(2)]
            by (auto simp: A_def C_def key_def)
          have rs': "set (items c') = insert item {x \<in> set []. K x \<noteq> K item}"
            using rs by (simp add: c0_def e_def)
          note kr = keys_replace [OF dk1 [unfolded i1] rd rs' nAC, folded i1 i2]
          have "vals (node (AT a1 nd' (pre @ [c'] @ post))) \<noteq> []"
            using m(1) by (auto simp: nd'_def vs_def)
          then show ?thesis using step ku(1) wf_tree' kr unfolding ks3 [symmetric] key_def
            by (intro exI [of _ "h2[a1 := nd']"] exI [of _ "AT a1 nd' (pre @ [c'] @ post)"]) simp
        qed
      qed
    qed
  qed
  from goal obtain h' t' where
    1: "with_item K h a G item key (H key) s = Some (h', addr t')" and
    2: "grows G h1 (AT a1 nd1 ks) h' t'" and
    3: "wf_tree K H s P t'" "distinct (map K (items t'))"
       "set (items t') = insert item {x \<in> set (items (AT a1 nd1 ks)). K x \<noteq> key}"
       "vals (node t') \<noteq> []" by blast
  from grows_trans [OF g1 2] have "grows G h t h' t'" by (simp add: t)
  with 1 3 show ?case unfolding it1 key_def t by auto
qed

lemma distinct_keys_items: "distinct (map K xs) \<Longrightarrow> distinct xs"
  by (simp add: distinct_map)

lemma list_all2_snoc_split:
  assumes "list_all2 R qs ks" "ks \<noteq> []"
  shows "qs = butlast qs @ [last qs]" "ks = butlast ks @ [last ks]"
    "list_all2 R (butlast qs) (butlast ks)" "R (last qs) (last ks)"
proof -
  from assms have l: "length qs = length ks" and q: "qs \<noteq> []"
    by (auto dest: list_all2_lengthD)
  show 1: "qs = butlast qs @ [last qs]" using q by simp
  show 2: "ks = butlast ks @ [last ks]" using assms(2) by simp
  from assms(1) have "list_all2 R (butlast qs @ [last qs]) (butlast ks @ [last ks])"
    using 1 2 by simp
  moreover have "length (butlast qs) = length (butlast ks)" using l by simp
  ultimately show "list_all2 R (butlast qs) (butlast ks)" "R (last qs) (last ks)"
    by (simp_all add: list_all2_append)
qed

lemma pullUp_tree:
  assumes "repr h t" "distinct (gaddrs G t)" "wf_tree K H s P t" "distinct (map K (items t))"
    and "vals (node t) \<noteq> []"
  shows "\<exists>h' r item. pullUp h (addr t) G = Some (h', r, item) \<and> item \<in> set (items t) \<and>
           length h \<le> length h' \<and> (\<forall>b<length h. b \<notin> set (gaddrs G t) \<longrightarrow> h' ! b = h ! b) \<and>
           ((r = None \<and> set (items t) = {item}) \<or>
            (\<exists>t'. r = Some (addr t') \<and> grows G h t h' t' \<and> wf_tree K H s P t' \<and>
                  distinct (map K (items t')) \<and> set (items t') = set (items t) - {item} \<and>
                  vals (node t') \<noteq> []))"
  using assms
proof (induction t arbitrary: h s P)
  case (AT a nd ks)
  define nd1 where "nd1 = nd\<lparr>generation := G\<rparr>"
  from path_copy_tree [OF AT.prems(1,2)] obtain h1 a1 where
    pc: "path_copy h G a = Some (h1, a1)" and
    g1: "grows G h (AT a nd ks) h1 (AT a1 nd1 ks)" unfolding nd1_def by blast
  note r1 = growsD(1) [OF g1] and d1 = growsD(2) [OF g1]
  have gen1: "generation nd1 = G" by (simp add: nd1_def)
  have w1: "wf_tree K H s P (AT a1 nd1 ks)" using AT.prems(3) by (simp add: nd1_def)
  have it1: "items (AT a1 nd1 ks) = items (AT a nd ks)" by (simp add: nd1_def)
  have dk1: "distinct (map K (items (AT a1 nd1 ks)))" using AT.prems(4) it1 by simp
  have di1: "distinct (items (AT a1 nd1 ks))" using dk1 by (rule distinct_keys_items)
  have h1a1: "h1 ! a1 = nd1" "a1 < length h1" using r1 by simp_all
  have pt1: "ptrs nd1 = map addr ks" using r1 by simp
  define vs where "vs = vals nd1"
  have vne: "vs \<noteq> []" using AT.prems(5) by (simp add: vs_def nd1_def)
  have wP: "\<forall>v\<in>set vs. P (H (K v))" using w1 by (simp add: vs_def)
  have goal: "\<exists>h' r item. pullUp h a G = Some (h', r, item) \<and> item \<in> set (items (AT a1 nd1 ks)) \<and>
           length h1 \<le> length h' \<and> (\<forall>b<length h1. b \<notin> set (gaddrs G (AT a1 nd1 ks)) \<longrightarrow> h' ! b = h1 ! b) \<and>
           ((r = None \<and> set (items (AT a1 nd1 ks)) = {item}) \<or>
            (\<exists>t'. r = Some (addr t') \<and> grows G h1 (AT a1 nd1 ks) h' t' \<and> wf_tree K H s P t' \<and>
                  distinct (map K (items t')) \<and> set (items t') = set (items (AT a1 nd1 ks)) - {item} \<and>
                  vals (node t') \<noteq> []))"
  proof (cases "ks = []")
    case True
    have bp0: "bmPtr nd1 = 0" using w1 True by (cases "s \<ge> 32") (simp_all add: slots_Nil [symmetric])
    define iv where "iv = length vs - 1"
    define item where "item = vs ! iv"
    have "vs = butlast vs @ [last vs]" using vne by simp
    then have vs: "vs = take iv vs @ [item]"
      using vne by (simp add: butlast_conv_take last_conv_nth iv_def item_def)
    show ?thesis
    proof (cases "iv = 0")
      case iv0: True
      have step: "pullUp h a G = Some (h1, None, item)"
        using vne [unfolded vs_def] iv0 [unfolded iv_def vs_def] by (subst pullUp.simps)
          (simp add: pc h1a1 bp0 Let_def item_def iv_def vs_def)
      have "set (items (AT a1 nd1 ks)) = {item}"
        using vs iv0 by (simp add: True vs_def [symmetric])
      with step show ?thesis by (intro exI [of _ h1] exI [of _ None] exI [of _ item]) simp
    next
      case ivn: False
      have ivl: "iv < length vs" using vne by (simp add: iv_def)
      have tne: "take iv vs \<noteq> []" using ivn vne by (simp add: take_eq_Nil)
      have sv: "set (take iv vs) = set vs - {item}"
        using di1 vs by (simp add: True vs_def [symmetric]) (metis Diff_insert_absorb Un_insert_right append_Nil2 distinct_append distinct.simps(2) list.simps(15) set_append insert_disjoint(1) disjoint_insert(1) distinct_take not_distinct_conv_prefix)
      have dkt: "distinct (map K (take iv vs))"
        using dk1 by (simp add: True vs_def [symmetric]) (metis distinct_take take_map)
      have P3: "\<forall>v\<in>set (take iv vs). P (H (K v))" using wP by (auto dest: in_set_takeD)
      show ?thesis
      proof (cases "s \<ge> 32")
        case s32: True
        with w1 have bv0: "bmVal nd1 = 0" by simp
        define nd' where "nd' = nd1\<lparr>vals := take iv (vals nd1)\<rparr>"
        have step: "pullUp h a G = Some (h1[a1 := nd'], Some a1, item)"
          using vne [unfolded vs_def] ivn [unfolded iv_def vs_def] by (subst pullUp.simps)
            (simp add: pc h1a1 bp0 bv0 Let_def item_def iv_def vs_def nd'_def)
        have gr: "grows G h1 (AT a1 nd1 ks) (h1[a1 := nd']) (AT a1 nd' ks)"
          by (rule root_update [OF r1 gen1 d1]) (simp_all add: nd'_def gen1)
        have wf_tree': "wf_tree K H s P (AT a1 nd' ks)"
          using s32 w1 P3 by (simp add: nd'_def vs_def)
        have "item \<in> set (items (AT a1 nd1 ks))" using vs by (simp add: vs_def [symmetric]) (metis in_set_conv_decomp)
        moreover have "distinct (map K (items (AT a1 nd' ks)))" using dkt by (simp add: True nd'_def vs_def)
        moreover have "set (items (AT a1 nd' ks)) = set (items (AT a1 nd1 ks)) - {item}"
          using sv by (simp add: True nd'_def vs_def)
        moreover have "vals (node (AT a1 nd' ks)) \<noteq> []" using tne by (simp add: nd'_def vs_def)
        moreover have "\<forall>b<length h1. b \<notin> set (gaddrs G (AT a1 nd1 ks)) \<longrightarrow> (h1[a1 := nd']) ! b = h1 ! b"
          using growsD(5) [OF gr] by blast
        ultimately show ?thesis using step gr wf_tree'
          by (intro exI [of _ "h1[a1 := nd']"] exI [of _ "Some a1"] exI [of _ item])
             (auto intro!: exI [of _ "AT a1 nd' ks"])
      next
        case False
        then have s32: "s < 32" by simp
        define f where "f = (\<lambda>v. chunk (H (K v)) s)"
        from w1 s32 have wv: "map f vs = slots (bmVal nd1)" by (simp add: f_def vs_def)
        with vne have bvn: "bmVal nd1 \<noteq> 0" by (metis slots_Nil map_is_Nil_conv)
        from clearHighestOneBit_slots [OF bvn] obtain bm where
          bm: "clearHighestOneBit (bmVal nd1) = Some bm" "slots bm = butlast (slots (bmVal nd1))" by blast
        define nd' where "nd' = nd1\<lparr>vals := take iv (vals nd1), bmVal := bm\<rparr>"
        have step: "pullUp h a G = Some (h1[a1 := nd'], Some a1, item)"
          using vne [unfolded vs_def] ivn [unfolded iv_def vs_def] bvn by (subst pullUp.simps)
            (simp add: pc h1a1 bp0 bm Let_def item_def iv_def vs_def nd'_def)
        have gr: "grows G h1 (AT a1 nd1 ks) (h1[a1 := nd']) (AT a1 nd' ks)"
          by (rule root_update [OF r1 gen1 d1]) (simp_all add: nd'_def gen1)
        have "map f (take iv vs) = butlast (map f vs)"
          by (simp add: iv_def butlast_conv_take take_map)
        then have "map f (take iv vs) = slots bm" using wv bm by simp
        then have wf_tree': "wf_tree K H s P (AT a1 nd' ks)"
          using s32 P3 by (simp add: nd'_def vs_def f_def True bp0)
        have "item \<in> set (items (AT a1 nd1 ks))" using vs by (simp add: vs_def [symmetric]) (metis in_set_conv_decomp)
        moreover have "distinct (map K (items (AT a1 nd' ks)))" using dkt by (simp add: True nd'_def vs_def)
        moreover have "set (items (AT a1 nd' ks)) = set (items (AT a1 nd1 ks)) - {item}"
          using sv by (simp add: True nd'_def vs_def)
        moreover have "vals (node (AT a1 nd' ks)) \<noteq> []" using tne by (simp add: nd'_def vs_def)
        moreover have "\<forall>b<length h1. b \<notin> set (gaddrs G (AT a1 nd1 ks)) \<longrightarrow> (h1[a1 := nd']) ! b = h1 ! b"
          using growsD(5) [OF gr] by blast
        ultimately show ?thesis using step gr wf_tree'
          by (intro exI [of _ "h1[a1 := nd']"] exI [of _ "Some a1"] exI [of _ item])
             (auto intro!: exI [of _ "AT a1 nd' ks"])
      qed
    qed
  next
    case kne: False
    with w1 have s32: "s < 32" by (cases "s \<ge> 32") simp_all
    define bp where "bp = bmPtr nd1"
    define f where "f = (\<lambda>v. chunk (H (K v)) s)"
    from w1 s32 have
      wv: "map f vs = slots (bmVal nd1)" and
      ws: "set (slots bp) \<subseteq> set (slots (bmVal nd1))" and
      wk: "list_all2 (kidR K H s P) (slots bp) ks"
      by (simp_all add: bp_def f_def vs_def)
    note sp = list_all2_snoc_split [OF wk kne]
    define ip where "ip = length (ptrs nd1) - 1"
    from sp(2,3,4) obtain pre c where ks: "ks = pre @ [c]" and
      rc: "kidR K H s P (last (slots bp)) c" and
      rpre: "list_all2 (kidR K H s P) (butlast (slots bp)) pre" by blast
    have lp: "length pre = ip" by (simp add: ip_def pt1 ks)
    have bpn: "bmPtr nd1 \<noteq> 0" using sp(1) by (metis slots_Nil bp_def snoc_eq_iff_butlast)
    have bvn: "bmVal nd1 \<noteq> 0" using vne wv by (metis slots_Nil map_is_Nil_conv)
    have pne: "ptrs nd1 \<noteq> []" using kne by (simp add: pt1)
    have pc': "ptrs nd1 ! (length (ptrs nd1) - Suc 0) = addr c" by (simp add: pt1 ks nth_append)
    have cin: "c \<in> set ks" by (simp add: ks)
    have rec: "\<exists>h2 r item. pullUp h1 (addr c) G = Some (h2, r, item) \<and> item \<in> set (items c) \<and>
           length h1 \<le> length h2 \<and> (\<forall>b<length h1. b \<notin> set (gaddrs G c) \<longrightarrow> h2 ! b = h1 ! b) \<and>
           ((r = None \<and> set (items c) = {item}) \<or>
            (\<exists>c'. r = Some (addr c') \<and> grows G h1 c h2 c' \<and>
                  wf_tree K H (s + 5) (\<lambda>x. P x \<and> chunk x s = last (slots bp)) c' \<and>
                  distinct (map K (items c')) \<and> set (items c') = set (items c) - {item} \<and>
                  vals (node c') \<noteq> []))"
    proof (rule AT.IH [OF cin])
      show "repr h1 c" using r1 cin by simp
      show "distinct (gaddrs G c)" using d1 by (simp add: ks)
      show "wf_tree K H (s + 5) (\<lambda>x. P x \<and> chunk x s = last (slots bp)) c" using rc by simp
      show "distinct (map K (items c))" using dk1 by (simp add: ks)
      show "vals (node c) \<noteq> []" using rc by simp
    qed
    then obtain h2 r item where
      rstep: "pullUp h1 (addr c) G = Some (h2, r, item)" and ri: "item \<in> set (items c)" and
      l12: "length h1 \<le> length h2" and
      rf: "\<forall>b<length h1. b \<notin> set (gaddrs G c) \<longrightarrow> h2 ! b = h1 ! b" and
      alt: "(r = None \<and> set (items c) = {item}) \<or>
            (\<exists>c'. r = Some (addr c') \<and> grows G h1 c h2 c' \<and>
                  wf_tree K H (s + 5) (\<lambda>x. P x \<and> chunk x s = last (slots bp)) c' \<and>
                  distinct (map K (items c')) \<and> set (items c') = set (items c) - {item} \<and>
                  vals (node c') \<noteq> [])" by blast
    have k1: "repr h1 (AT a1 nd1 (pre @ [c] @ []))" using r1 by (simp add: ks)
    have k3: "distinct (gaddrs G (AT a1 nd1 (pre @ [c] @ [])))" using d1 by (simp add: ks)
    have k5: "\<And>b. b < length h1 \<Longrightarrow> b \<notin> set (concat (map (gaddrs G) [c])) \<Longrightarrow> h2 ! b = h1 ! b"
      using rf by simp
    define A where "A = vs @ concat (map items pre)"
    have i1: "items (AT a1 nd1 ks) = A @ items c @ []"
      by (simp add: ks A_def vs_def)
    have iin: "item \<in> set (items (AT a1 nd1 ks))" unfolding i1 using ri by simp
    have inA: "item \<notin> set A" using di1 ri unfolding i1 by auto
    from alt show ?thesis
    proof (elim disjE conjE exE)
      assume r: "r = None" and ic: "set (items c) = {item}"
      from clearHighestOneBit_slots [OF bpn] obtain bm where
        bm: "clearHighestOneBit (bmPtr nd1) = Some bm" "slots bm = butlast (slots bp)"
        unfolding bp_def by blast
      define nd' where "nd' = nd1\<lparr>ptrs := take ip (ptrs nd1), bmPtr := bm\<rparr>"
      have pn: "ptrs nd' = map addr (pre @ [] @ [])"
        by (simp add: nd'_def pt1 ks ip_def)
      have k11: "generation nd' = G" by (simp add: nd'_def gen1)
      have ku: "grows G h1 (AT a1 nd1 (pre @ [c] @ [])) (h2[a1 := nd']) (AT a1 nd' (pre @ [] @ []))"
        "h2 ! a1 = nd1"
        by (rule kids_update [OF k1 gen1 k3 l12 k5 _ _ _ _ pn k11]; simp)+
      have d2: "deref h2 a1 = Some nd1" using ku(2) h1a1(2) l12 by (simp add: deref_def)
      have step: "pullUp h a G = Some (h2[a1 := nd'], Some a1, item)"
        using bpn bvn pne rstep r d2 bm(1)
        by (subst pullUp.simps) (simp add: pc h1a1 Let_def pc' nd'_def ip_def)
      have wf_tree': "wf_tree K H s P (AT a1 nd' (pre @ [] @ []))"
        using s32 wv wP ws rpre bm(2) by (auto simp: f_def nd'_def vs_def dest: in_set_butlastD)
      have dA: "distinct (map K A)" using dk1 unfolding i1 by simp
      have "items (AT a1 nd' (pre @ [] @ [])) = A" by (simp add: nd'_def A_def vs_def)
      with dA have "distinct (map K (items (AT a1 nd' (pre @ [] @ []))))" by simp
      moreover have "set (items (AT a1 nd' (pre @ [] @ []))) = set (items (AT a1 nd1 ks)) - {item}"
        unfolding i1 using inA ic by (auto simp: nd'_def A_def vs_def)
      moreover have "vals (node (AT a1 nd' (pre @ [] @ []))) \<noteq> []"
        using vne by (simp add: nd'_def vs_def)
      moreover have "\<forall>b<length h1. b \<notin> set (gaddrs G (AT a1 nd1 ks)) \<longrightarrow> (h2[a1 := nd']) ! b = h1 ! b"
        using growsD(5) [OF ku(1)] by (simp add: ks)
      moreover have "length h1 \<le> length (h2[a1 := nd'])" using l12 by simp
      moreover have "grows G h1 (AT a1 nd1 ks) (h2[a1 := nd']) (AT a1 nd' (pre @ [] @ []))"
        using ku(1) by (simp add: ks)
      ultimately show ?thesis using step wf_tree' iin
        by (intro exI [of _ "h2[a1 := nd']"] exI [of _ "Some a1"] exI [of _ item])
           (auto intro!: exI [of _ "AT a1 nd' (pre @ [] @ [])"])
    next
      fix c' assume r: "r = Some (addr c')" and rg: "grows G h1 c h2 c'"
        and rw: "wf_tree K H (s + 5) (\<lambda>x. P x \<and> chunk x s = last (slots bp)) c'"
        and rd: "distinct (map K (items c'))" and rs: "set (items c') = set (items c) - {item}"
        and rn: "vals (node c') \<noteq> []"
      define nd' where "nd' = nd1\<lparr>ptrs := (ptrs nd1)[ip := addr c']\<rparr>"
      have pn: "ptrs nd' = map addr (pre @ [c'] @ [])"
        by (simp add: nd'_def pt1 ks ip_def list_update_append)
      have k6: "\<And>k. k \<in> set [c'] \<Longrightarrow> repr h2 k" using growsD(1) [OF rg] by simp
      have k7: "set (concat (map addrs [c'])) \<subseteq> set (concat (map addrs [c])) \<union> {length h1..<length h2}"
        using growsD(6) [OF rg] by simp
      have k8: "set (concat (map (gaddrs G) [c'])) \<subseteq> set (concat (map (gaddrs G) [c])) \<union> {length h1..<length h2}"
        using growsD(7) [OF rg] by simp
      have k9: "distinct (concat (map (gaddrs G) [c']))" using growsD(2) [OF rg] by simp
      have k11: "generation nd' = G" by (simp add: nd'_def gen1)
      note ku = kids_update [OF k1 gen1 k3 l12 k5 k6 k7 k8 k9 pn k11]
      have d2: "deref h2 a1 = Some nd1" using ku(2) h1a1(2) l12 by (simp add: deref_def)
      have step: "pullUp h a G = Some (h2[a1 := nd'], Some a1, item)"
        using bpn bvn pne rstep r d2
        by (subst pullUp.simps) (simp add: pc h1a1 Let_def pc' nd'_def ip_def)
      have kl: "list_all2 (kidR K H s P) (slots bp) (pre @ [c'] @ [])"
        by (subst sp(1)) (use rpre rw rn in \<open>auto intro!: list_all2_appendI\<close>)
      have wf_tree': "wf_tree K H s P (AT a1 nd' (pre @ [c'] @ []))"
        using s32 wv wP ws kl by (simp add: f_def nd'_def vs_def bp_def)
      have sub: "\<And>x. x \<in> set (items c') \<Longrightarrow> x \<in> set (items c)" using rs by auto
      have i2: "items (AT a1 nd' (pre @ [c'] @ [])) = A @ items c' @ []"
        by (simp add: nd'_def A_def vs_def)
      have "distinct (map K (A @ items c' @ []))"
        using dk1 rd sub unfolding i1 distinct_keys_app3 by blast
      then have "distinct (map K (items (AT a1 nd' (pre @ [c'] @ []))))" unfolding i2 .
      moreover have "set (items (AT a1 nd' (pre @ [c'] @ []))) = set (items (AT a1 nd1 ks)) - {item}"
        unfolding i1 using inA rs by (auto simp: nd'_def A_def vs_def)
      moreover have "vals (node (AT a1 nd' (pre @ [c'] @ []))) \<noteq> []"
        using vne by (simp add: nd'_def vs_def)
      moreover have "\<forall>b<length h1. b \<notin> set (gaddrs G (AT a1 nd1 ks)) \<longrightarrow> (h2[a1 := nd']) ! b = h1 ! b"
        using growsD(5) [OF ku(1)] by (simp add: ks)
      moreover have "length h1 \<le> length (h2[a1 := nd'])" using l12 by simp
      moreover have "grows G h1 (AT a1 nd1 ks) (h2[a1 := nd']) (AT a1 nd' (pre @ [c'] @ []))"
        using ku(1) by (simp add: ks)
      ultimately show ?thesis using step wf_tree' iin
        by (intro exI [of _ "h2[a1 := nd']"] exI [of _ "Some a1"] exI [of _ item])
           (auto intro!: exI [of _ "AT a1 nd' (pre @ [c'] @ [])"])
    qed
  qed
  then obtain h' r item where
    1: "pullUp h a G = Some (h', r, item)" "item \<in> set (items (AT a1 nd1 ks))" "length h1 \<le> length h'"
       "\<forall>b<length h1. b \<notin> set (gaddrs G (AT a1 nd1 ks)) \<longrightarrow> h' ! b = h1 ! b" and
    2: "(r = None \<and> set (items (AT a1 nd1 ks)) = {item}) \<or>
            (\<exists>t'. r = Some (addr t') \<and> grows G h1 (AT a1 nd1 ks) h' t' \<and> wf_tree K H s P t' \<and>
                  distinct (map K (items t')) \<and> set (items t') = set (items (AT a1 nd1 ks)) - {item} \<and>
                  vals (node t') \<noteq> [])" by blast
  have len: "length h \<le> length h'" using growsD(4) [OF g1] 1(3) by simp
  have fr: "\<forall>b<length h. b \<notin> set (gaddrs G (AT a nd ks)) \<longrightarrow> h' ! b = h ! b"
  proof (intro allI impI)
    fix b assume b: "b < length h" "b \<notin> set (gaddrs G (AT a nd ks))"
    then have "h1 ! b = h ! b" using growsD(5) [OF g1] by blast
    moreover have "b \<notin> set (gaddrs G (AT a1 nd1 ks))" using growsD(7) [OF g1] b by auto
    moreover have "b < length h1" using b growsD(4) [OF g1] by simp
    ultimately show "h' ! b = h ! b" using 1(4) by simp
  qed
  from 2 have 3: "(r = None \<and> set (items (AT a nd ks)) = {item}) \<or>
            (\<exists>t'. r = Some (addr t') \<and> grows G h (AT a nd ks) h' t' \<and> wf_tree K H s P t' \<and>
                  distinct (map K (items t')) \<and> set (items t') = set (items (AT a nd ks)) - {item} \<and>
                  vals (node t') \<noteq> [])"
    unfolding it1 using grows_trans [OF g1] by blast
  show ?case using 1(1,2) len fr 3 unfolding it1
    by (intro exI [of _ h'] exI [of _ r] exI [of _ item]) simp
qed

lemma wf_empty_items:
  assumes "wf_tree K H s P t" "vals (node t) = []"
  shows "items t = []"
proof (cases t)
  case (AT a nd ks)
  show ?thesis
  proof (cases "s \<ge> 32")
    case True
    with assms AT show ?thesis by simp
  next
    case False
    with assms AT have "slots (bmVal nd) = []" by simp
    with assms(1) AT False have "slots (bmPtr nd) = []" by simp
    with assms(1) AT False have "ks = []" by simp
    with assms(2) AT show ?thesis by simp
  qed
qed

lemma index_where_Some:
  "index_where p vs = Some i \<Longrightarrow> i < length vs \<and> p (vs ! i)"
  by (induction vs arbitrary: i) (auto split: if_splits)

lemma index_where_None: "index_where p vs = None \<Longrightarrow> v \<in> set vs \<Longrightarrow> \<not> p v"
  by (induction vs) (auto split: if_splits)

lemma swap_remove:
  assumes "distinct (map K vs)" "i < length vs"
  shows "set (butlast (vs[i := last vs])) = set vs - {vs ! i}"
    and "distinct (map K (butlast (vs[i := last vs])))"
proof -
  from assms(2) have ne: "vs \<noteq> []" by auto
  define ys where "ys = butlast vs"
  define l where "l = last vs"
  have vs: "vs = ys @ [l]" using ne by (simp add: ys_def l_def)
  from assms(1) have dys: "distinct (map K ys)" and lk: "K l \<notin> K ` set ys"
    unfolding vs by auto
  have dv: "distinct vs" using assms(1) by (simp add: distinct_map)
  show "set (butlast (vs[i := last vs])) = set vs - {vs ! i}"
       "distinct (map K (butlast (vs[i := last vs])))"
  proof -
    consider "i = length ys" | "i < length ys" using assms(2) unfolding vs by force
    then have "set (butlast (vs[i := last vs])) = set vs - {vs ! i} \<and>
        distinct (map K (butlast (vs[i := last vs])))"
    proof cases
      case 1
      then have "vs[i := last vs] = vs" unfolding vs by simp
      moreover have "vs ! i = l" using 1 unfolding vs by simp
      moreover have "set ys = set vs - {l}" using dv unfolding vs by auto
      ultimately show ?thesis using dys by (simp add: ys_def [symmetric])
    next
      case 2
      then have u: "butlast (vs[i := last vs]) = ys[i := l]"
        unfolding vs by (simp add: list_update_append)
      have n: "vs ! i = ys ! i" using 2 unfolding vs by (simp add: nth_append)
      have dy: "distinct ys" using dys by (simp add: distinct_map)
      have s1: "set (ys[i := l]) = insert l (set ys - {ys ! i})"
        using dy 2 by (rule set_update_distinct)
      have "l \<noteq> ys ! i" using lk 2 by (metis image_eqI nth_mem)
      then have s2: "insert l (set ys - {ys ! i}) = set vs - {vs ! i}"
        unfolding n unfolding vs by auto
      have "map K (ys[i := l]) = (map K ys)[i := K l]" by (simp add: map_update)
      moreover have "distinct ((map K ys)[i := K l])"
        using dys lk by (simp add: distinct_list_update)
      ultimately show ?thesis using u s1 s2 by simp
    qed
    then show "set (butlast (vs[i := last vs])) = set vs - {vs ! i}"
       "distinct (map K (butlast (vs[i := last vs])))" by simp_all
  qed
qed

lemma keys_only:
  assumes "distinct (map K xs)" "v \<in> set xs" "K v = key"
  shows "{x \<in> set xs. K x \<noteq> key} = set xs - {v}"
  using assms distinct_key_eq [OF assms(1)] by auto

lemma keys_move:
  assumes "distinct (map K (A @ [v] @ B @ C @ D))" "item \<in> set C"
    and "distinct (map K C')" "set C' = set C - {item}"
  shows "distinct (map K (A @ [item] @ B @ C' @ D))"
    and "set (A @ [item] @ B @ C' @ D) = set (A @ [v] @ B @ C @ D) - {v}"
proof -
  have dC: "distinct C" using assms(1) by (simp add: distinct_map)
  have dC': "distinct (item # C')" using assms(3,4) by (simp add: distinct_map)
  have "set C = set (item # C')" using assms(2,4) by auto
  with dC dC' have "mset C = mset (item # C')" by (simp only: set_eq_iff_mset_eq_distinct)
  then have m: "mset (A @ [item] @ B @ C' @ D) = mset (A @ B @ C @ D)" by simp
  have d0: "distinct (map K (A @ B @ C @ D))" using assms(1) by simp
  from m have "mset (map K (A @ [item] @ B @ C' @ D)) = mset (map K (A @ B @ C @ D))"
    by (metis mset_map)
  then show "distinct (map K (A @ [item] @ B @ C' @ D))"
    using d0 mset_eq_imp_distinct_iff by blast
  have "distinct (A @ [v] @ B @ C @ D)" using assms(1) by (rule distinct_keys_items)
  then have "v \<notin> set (A @ B @ C @ D)" by auto
  moreover have "set (A @ [item] @ B @ C' @ D) = set (A @ B @ C @ D)"
    using m by (rule mset_eq_setD)
  ultimately show "set (A @ [item] @ B @ C' @ D) = set (A @ [v] @ B @ C @ D) - {v}" by auto
qed

lemma grows_refl:
  "repr h t \<Longrightarrow> distinct (gaddrs G t) \<Longrightarrow> generation (node t) = G \<Longrightarrow> grows G h t h t"
  by (auto simp: grows_def)

lemma without_tree:
  assumes "repr h t" "distinct (gaddrs G t)" "wf_tree K H s P t" "distinct (map K (items t))"
    and "P (H key)"
  shows "\<exists>h' r ok t'. without K h (addr t) G key (H key) s = Some (h', r, ok) \<and>
           (ok \<longleftrightarrow> key \<in> K ` set (items t)) \<and>
           grows G h t h' t' \<and> wf_tree K H s P t' \<and> distinct (map K (items t')) \<and>
           set (items t') = {x \<in> set (items t). K x \<noteq> key} \<and>
           (r = None \<longrightarrow> vals (node t') = []) \<and>
           (r \<noteq> None \<longrightarrow> r = Some (addr t') \<and> (vals (node t) \<noteq> [] \<longrightarrow> vals (node t') \<noteq> []))"
  using assms
proof (induction t arbitrary: h s P)
  case (AT a nd ks)
  define nd1 where "nd1 = nd\<lparr>generation := G\<rparr>"
  from path_copy_tree [OF AT.prems(1,2)] obtain h1 a1 where
    pc: "path_copy h G a = Some (h1, a1)" and
    g1: "grows G h (AT a nd ks) h1 (AT a1 nd1 ks)" unfolding nd1_def by blast
  note r1 = growsD(1) [OF g1] and d1 = growsD(2) [OF g1]
  have gen1: "generation nd1 = G" by (simp add: nd1_def)
  have w1: "wf_tree K H s P (AT a1 nd1 ks)" using AT.prems(3) by (simp add: nd1_def)
  have it1: "items (AT a1 nd1 ks) = items (AT a nd ks)" by (simp add: nd1_def)
  have dk1: "distinct (map K (items (AT a1 nd1 ks)))" using AT.prems(4) it1 by simp
  have h1a1: "h1 ! a1 = nd1" "a1 < length h1" using r1 by simp_all
  have pt1: "ptrs nd1 = map addr ks" using r1 by simp
  define vs where "vs = vals nd1"
  have vsn: "vals nd = vs" by (simp add: vs_def nd1_def)
  have wP: "\<forall>v\<in>set vs. P (H (K v))" using w1 by (simp add: vs_def)
  note Pk = AT.prems(5)
  have gr0: "grows G h1 (AT a1 nd1 ks) h1 (AT a1 nd1 ks)"
    by (rule grows_refl [OF r1 d1]) (simp add: gen1)
  have goal: "\<exists>h' r ok t'. without K h a G key (H key) s = Some (h', r, ok) \<and>
           (ok \<longleftrightarrow> key \<in> K ` set (items (AT a1 nd1 ks))) \<and>
           grows G h1 (AT a1 nd1 ks) h' t' \<and> wf_tree K H s P t' \<and> distinct (map K (items t')) \<and>
           set (items t') = {x \<in> set (items (AT a1 nd1 ks)). K x \<noteq> key} \<and>
           (r = None \<longrightarrow> vals (node t') = []) \<and>
           (r \<noteq> None \<longrightarrow> r = Some (addr t') \<and> (vs \<noteq> [] \<longrightarrow> vals (node t') \<noteq> []))"
  proof (cases "s \<ge> 32")
    case True
    with w1 have ks: "ks = []" and bz: "bmVal nd1 = 0" "bmPtr nd1 = 0" by simp_all
    have dv: "distinct (map K vs)" using dk1 by (simp add: ks vs_def)
    show ?thesis
    proof (cases "index_where (\<lambda>v. K v = key) vs")
      case None
      have step: "without K h a G key (H key) s = Some (h1, Some a1, False)"
        using True None [unfolded vs_def]
        by (subst without.simps) (simp add: pc h1a1 Let_def)
      have nk: "key \<notin> K ` set (items (AT a1 nd1 ks))"
        using index_where_None [OF None] by (auto simp: ks vs_def)
      then have f6: "set (items (AT a1 nd1 ks)) = {x \<in> set (items (AT a1 nd1 ks)). K x \<noteq> key}"
        by auto
      have f2: "False \<longleftrightarrow> key \<in> K ` set (items (AT a1 nd1 ks))" using nk by simp
      have f7: "Some a1 = None \<longrightarrow> vals (node (AT a1 nd1 ks)) = []" by simp
      have f8: "Some a1 \<noteq> None \<longrightarrow> Some a1 = Some (addr (AT a1 nd1 ks)) \<and>
          (vs \<noteq> [] \<longrightarrow> vals (node (AT a1 nd1 ks)) \<noteq> [])" by (simp add: vs_def)
      show ?thesis using step f2 gr0 w1 dk1 f6 f7 f8 by blast
    next
      case (Some i)
      note iw = index_where_Some [OF Some]
      define vs' where "vs' = butlast (vs[i := last vs])"
      define nd' where "nd' = nd1\<lparr>vals := butlast ((vals nd1)[i := last (vals nd1)])\<rparr>"
      define r where "r = (if vs' = [] then None else Some a1)"
      have v': "vals nd' = vs'" by (simp add: nd'_def vs'_def vs_def)
      have step: "without K h a G key (H key) s = Some (h1[a1 := nd'], r, True)"
        using True Some [unfolded vs_def]
        by (subst without.simps) (simp add: pc h1a1 Let_def nd'_def vs'_def vs_def r_def)
      have gr: "grows G h1 (AT a1 nd1 ks) (h1[a1 := nd']) (AT a1 nd' ks)"
        by (rule root_update [OF r1 gen1 d1]) (simp_all add: nd'_def gen1)
      note sr = swap_remove [OF dv iw [THEN conjunct1], folded vs'_def]
      have ko: "{x \<in> set vs. K x \<noteq> key} = set vs - {vs ! i}"
        using keys_only [OF dv _ iw [THEN conjunct2]] iw by simp
      have wf_tree': "wf_tree K H s P (AT a1 nd' ks)"
        using True bz ks wP sr(1) by (auto simp: nd'_def v' [unfolded nd'_def])
      have "vs ! i \<in> set vs" using iw by simp
      then have "K (vs ! i) \<in> K ` set vs" by (rule imageI)
      then have "key \<in> K ` set vs" using iw by simp
      then have f2: "True \<longleftrightarrow> key \<in> K ` set (items (AT a1 nd1 ks))"
        by (simp add: ks vs_def [symmetric])
      have f5: "distinct (map K (items (AT a1 nd' ks)))" using sr(2) by (simp add: ks v')
      have f6: "set (items (AT a1 nd' ks)) = {x \<in> set (items (AT a1 nd1 ks)). K x \<noteq> key}"
        using sr(1) ko by (simp add: ks v' vs_def [symmetric])
      have f7: "r = None \<longrightarrow> vals (node (AT a1 nd' ks)) = []"
        by (simp add: r_def v')
      have f8: "r \<noteq> None \<longrightarrow> r = Some (addr (AT a1 nd' ks)) \<and>
          (vs \<noteq> [] \<longrightarrow> vals (node (AT a1 nd' ks)) \<noteq> [])" by (simp add: r_def v')
      show ?thesis using step f2 gr wf_tree' f5 f6 f7 f8 by blast
    qed
  next
    case False
    then have s32: "s < 32" by simp
    define p where "p = chunk (H key) s"
    have p: "p < 32" by (simp add: p_def chunk_lt)
    define bv where "bv = bmVal nd1"
    define bp where "bp = bmPtr nd1"
    define f where "f = (\<lambda>v. chunk (H (K v)) s)"
    define iv where "iv = length (lo bv p)"
    define ip where "ip = length (lo bp p)"
    from w1 s32 have
      wv: "map f vs = slots bv" and
      ws: "set (slots bp) \<subseteq> set (slots bv)" and
      wk: "list_all2 (kidR K H s P) (slots bp) ks"
      by (simp_all add: bv_def bp_def f_def vs_def)
    have nb: "node_bit (H key) s = 2 ^ p" by (simp add: node_bit_chunk p_def)
    have ivc: "OnesCount32 (bmVal nd1 AND (2 ^ p - 1)) = iv"
      by (simp add: OnesCount32_lo [OF p] bv_def iv_def)
    have ipc: "OnesCount32 (bmPtr nd1 AND (2 ^ p - 1)) = ip"
      by (simp add: OnesCount32_lo [OF p] bp_def ip_def)
    have bz: "(bmVal nd1 AND 2 ^ p = 0) \<longleftrightarrow> \<not> bit bv p"
      by (simp add: and_bit_zero [OF p] bv_def)
    have pz: "(bmPtr nd1 AND 2 ^ p = 0) \<longleftrightarrow> \<not> bit bp p"
      by (simp add: and_bit_zero [OF p] bp_def)
    have keyp: "\<And>v. K v = key \<Longrightarrow> f v = p" by (simp add: f_def p_def)
    have offkids: "\<And>qs ks' k v. list_all2 (kidR K H s P) qs ks' \<Longrightarrow> p \<notin> set qs \<Longrightarrow>
        k \<in> set ks' \<Longrightarrow> v \<in> set (items k) \<Longrightarrow> K v \<noteq> key"
      using kids_off_path [where K = K and H = H and s = s and P = P and p = p] p_def by blast
    have P': "P (H key) \<and> chunk (H key) s = p" using Pk by (simp add: p_def)
    have B0: ?thesis
      if nbp: "\<not> bit bp p" and nv: "\<And>v. v \<in> set vs \<Longrightarrow> K v \<noteq> key"
        and st: "bit bv p \<Longrightarrow> iv < length (vals nd1) \<and> K (vals nd1 ! iv) \<noteq> key"
    proof -
      have step: "without K h a G key (H key) s = Some (h1, Some a1, False)"
        using s32 nbp st
        by (subst without.simps) (auto simp add: pc h1a1 nb ivc bz pz Let_def)
      from nbp have "p \<notin> set (slots bp)" by (simp add: set_slots)
      note nk = offkids [OF wk this]
      have nkey: "key \<notin> K ` set (items (AT a1 nd1 ks))"
        using nv nk by (auto simp: vs_def)
      then have f6: "set (items (AT a1 nd1 ks)) = {x \<in> set (items (AT a1 nd1 ks)). K x \<noteq> key}"
        by auto
      have f2: "False \<longleftrightarrow> key \<in> K ` set (items (AT a1 nd1 ks))" using nkey by simp
      have f7: "Some a1 = None \<longrightarrow> vals (node (AT a1 nd1 ks)) = []" by simp
      have f8: "Some a1 \<noteq> None \<longrightarrow> Some a1 = Some (addr (AT a1 nd1 ks)) \<and>
          (vs \<noteq> [] \<longrightarrow> vals (node (AT a1 nd1 ks)) \<noteq> [])" by (simp add: vs_def)
      show ?thesis using step f2 gr0 w1 dk1 f6 f7 f8 by blast
    qed
    show ?thesis
    proof (cases "bit bv p")
      case False
      with ws have nbp: "\<not> bit bp p" by (auto simp: set_slots)
      from False have sl: "slots bv = lo bv p @ hi bv p" by (simp add: slots_lo_hi [OF p])
      note m = map_eq_nomid [OF wv [unfolded sl] lo_hi_notin]
      have nv: "\<And>v. v \<in> set vs \<Longrightarrow> K v \<noteq> key" using m(1) keyp by blast
      show ?thesis using B0 [OF nbp nv] False by simp
    next
      case bvp: True
      then have sl: "slots bv = lo bv p @ p # hi bv p" by (simp add: slots_lo_hi [OF p])
      note m = map_eq_mid [OF wv [unfolded sl] lo_hi_notin, folded iv_def]
      have vsplit: "vs = take iv vs @ vs ! iv # drop (Suc iv) vs"
        using m(1) by (simp add: id_take_nth_drop [symmetric])
      have ivl: "iv < length (vals nd1)" using m(1) by (simp add: vs_def)
      show ?thesis
      proof (cases "K (vs ! iv) = key")
        case kv: False
        have nv: "\<And>v. v \<in> set vs \<Longrightarrow> K v \<noteq> key" using m(3) keyp kv by blast
        show ?thesis
        proof (cases "bit bp p")
          case False
          show ?thesis using B0 [OF False nv] ivl kv by (simp add: vs_def)
        next
          case bpp: True
          then have slp: "slots bp = lo bp p @ p # hi bp p" by (simp add: slots_lo_hi [OF p])
          from kids_split [OF wk [unfolded slp]] obtain pre c post where
            ks: "ks = pre @ c # post" and lp: "length pre = ip" and
            rpre: "list_all2 (kidR K H s P) (lo bp p) pre" and rc: "kidR K H s P p c" and
            rpost: "list_all2 (kidR K H s P) (hi bp p) post" unfolding ip_def by blast
          have pc': "ptrs nd1 ! ip = addr c" and ipl: "ip < length (ptrs nd1)"
            using lp by (auto simp: pt1 ks nth_append)
          have cin: "c \<in> set ks" by (simp add: ks)
          have rec: "\<exists>h2 r ok c'. without K h1 (addr c) G key (H key) (s + 5) = Some (h2, r, ok) \<and>
             (ok \<longleftrightarrow> key \<in> K ` set (items c)) \<and>
             grows G h1 c h2 c' \<and> wf_tree K H (s + 5) (\<lambda>x. P x \<and> chunk x s = p) c' \<and>
             distinct (map K (items c')) \<and>
             set (items c') = {x \<in> set (items c). K x \<noteq> key} \<and>
             (r = None \<longrightarrow> vals (node c') = []) \<and>
             (r \<noteq> None \<longrightarrow> r = Some (addr c') \<and> (vals (node c) \<noteq> [] \<longrightarrow> vals (node c') \<noteq> []))"
          proof (rule AT.IH [OF cin])
            show "repr h1 c" using r1 by (simp add: ks)
            show "distinct (gaddrs G c)" using d1 by (simp add: ks)
            show "wf_tree K H (s + 5) (\<lambda>x. P x \<and> chunk x s = p) c" using rc by simp
            show "distinct (map K (items c))" using dk1 by (simp add: ks)
            show "P (H key) \<and> chunk (H key) s = p" by (rule P')
          qed
          then obtain h2 r ok c' where
            rstep: "without K h1 (addr c) G key (H key) (s + 5) = Some (h2, r, ok)" and
            rok: "ok \<longleftrightarrow> key \<in> K ` set (items c)" and
            rg: "grows G h1 c h2 c'" and rw: "wf_tree K H (s + 5) (\<lambda>x. P x \<and> chunk x s = p) c'" and
            rd: "distinct (map K (items c'))" and
            rs: "set (items c') = {x \<in> set (items c). K x \<noteq> key}" and
            rN: "r = None \<longrightarrow> vals (node c') = []" and
            rS: "r \<noteq> None \<longrightarrow> r = Some (addr c') \<and> (vals (node c) \<noteq> [] \<longrightarrow> vals (node c') \<noteq> [])"
            by blast
          note l12 = growsD(4) [OF rg]
          have k1: "repr h1 (AT a1 nd1 (pre @ [c] @ post))" using r1 by (simp add: ks)
          have k3: "distinct (gaddrs G (AT a1 nd1 (pre @ [c] @ post)))" using d1 by (simp add: ks)
          have k5: "\<And>b. b < length h1 \<Longrightarrow> b \<notin> set (concat (map (gaddrs G) [c])) \<Longrightarrow> h2 ! b = h1 ! b"
            using growsD(5) [OF rg] by simp
          define A where "A = vs @ concat (map items pre)"
          define C where "C = concat (map items post)"
          have i1: "items (AT a1 nd1 ks) = A @ items c @ C"
            by (simp add: A_def C_def vs_def ks)
          have nAC: "\<And>x. x \<in> set A \<union> set C \<Longrightarrow> K x \<noteq> key"
          proof -
            fix x assume "x \<in> set A \<union> set C"
            then consider "x \<in> set vs" | k where "k \<in> set pre" "x \<in> set (items k)"
              | k where "k \<in> set post" "x \<in> set (items k)" by (auto simp: A_def C_def)
            then show "K x \<noteq> key"
              using nv offkids [OF rpre lo_hi_notin(1)] offkids [OF rpost lo_hi_notin(2)]
              by cases blast+
          qed
          note kr = keys_remove [OF dk1 [unfolded i1] rd rs nAC, folded i1]
          have f2: "ok \<longleftrightarrow> key \<in> K ` set (items (AT a1 nd1 ks))"
            unfolding i1 rok using nAC by auto
          show ?thesis
          proof (cases r)
            case None
            with rN have "items c' = []" using wf_empty_items [OF rw] by simp
            define nd' where "nd' = nd1\<lparr>bmPtr := bmPtr nd1 AND NOT (2 ^ p),
                ptrs := take ip (ptrs nd1) @ drop (Suc ip) (ptrs nd1)\<rparr>"
            have pn: "ptrs nd' = map addr (pre @ [] @ post)"
              using lp by (simp add: nd'_def pt1 ks)
            have k11: "generation nd' = G" by (simp add: nd'_def gen1)
            have ku: "grows G h1 (AT a1 nd1 (pre @ [c] @ post)) (h2[a1 := nd']) (AT a1 nd' (pre @ [] @ post))"
              "h2 ! a1 = nd1"
              by (rule kids_update [OF k1 gen1 k3 l12 k5 _ _ _ _ pn k11]; simp)+
            have d2: "deref h2 a1 = Some nd1" using ku(2) h1a1(2) l12 by (simp add: deref_def)
            have step: "without K h a G key (H key) s = Some (h2[a1 := nd'], Some a1, ok)"
              using s32 bvp ivl kv [unfolded vs_def] bpp ipl pc' rstep d2 None
              by (subst without.simps)
                 (simp add: pc h1a1 nb ivc ipc bz pz Let_def nd'_def bitsPerItemNode_def)
            have slp': "slots (bmPtr nd') = lo bp p @ hi bp p"
              by (simp add: nd'_def slots_clear_bit [OF p] bp_def)
            have kl: "list_all2 (kidR K H s P) (slots (bmPtr nd')) (pre @ [] @ post)"
              unfolding slp' using rpre rpost by (auto intro!: list_all2_appendI)
            have ws': "set (slots (bmPtr nd')) \<subseteq> set (slots (bmVal nd'))"
              using ws by (auto simp: nd'_def set_slots bit_andnot_bit bp_def bv_def)
            have wf_tree': "wf_tree K H s P (AT a1 nd' (pre @ [] @ post))"
              using s32 wv wP ws' kl by (simp add: f_def nd'_def bv_def vs_def)
            have i2: "items (AT a1 nd' (pre @ [] @ post)) = A @ items c' @ C"
              using \<open>items c' = []\<close> by (simp add: A_def C_def nd'_def vs_def)
            have gr: "grows G h1 (AT a1 nd1 ks) (h2[a1 := nd']) (AT a1 nd' (pre @ [] @ post))"
              using ku(1) by (simp add: ks)
            have f7: "Some a1 = None \<longrightarrow> vals (node (AT a1 nd' (pre @ [] @ post))) = []" by simp
            have f8: "Some a1 \<noteq> None \<longrightarrow> Some a1 = Some (addr (AT a1 nd' (pre @ [] @ post))) \<and>
                (vs \<noteq> [] \<longrightarrow> vals (node (AT a1 nd' (pre @ [] @ post))) \<noteq> [])"
              by (simp add: nd'_def vs_def)
            show ?thesis using step f2 gr wf_tree' kr [folded i2] f7 f8 by blast
          next
            case (Some ca)
            with rS have ca: "r = Some (addr c')" and rn: "vals (node c') \<noteq> []"
              using rc by auto
            define nd' where "nd' = nd1\<lparr>ptrs := (ptrs nd1)[ip := addr c']\<rparr>"
            have pn: "ptrs nd' = map addr (pre @ [c'] @ post)"
              using lp by (simp add: nd'_def pt1 ks list_update_append)
            have k6: "\<And>k. k \<in> set [c'] \<Longrightarrow> repr h2 k" using growsD(1) [OF rg] by simp
            have k7: "set (concat (map addrs [c'])) \<subseteq> set (concat (map addrs [c])) \<union> {length h1..<length h2}"
              using growsD(6) [OF rg] by simp
            have k8: "set (concat (map (gaddrs G) [c'])) \<subseteq> set (concat (map (gaddrs G) [c])) \<union> {length h1..<length h2}"
              using growsD(7) [OF rg] by simp
            have k9: "distinct (concat (map (gaddrs G) [c']))" using growsD(2) [OF rg] by simp
            have k11: "generation nd' = G" by (simp add: nd'_def gen1)
            note ku = kids_update [OF k1 gen1 k3 l12 k5 k6 k7 k8 k9 pn k11]
            have d2: "deref h2 a1 = Some nd1" using ku(2) h1a1(2) l12 by (simp add: deref_def)
            have step: "without K h a G key (H key) s = Some (h2[a1 := nd'], Some a1, ok)"
              using s32 bvp ivl kv [unfolded vs_def] bpp ipl pc' rstep d2 ca
              by (subst without.simps)
                 (simp add: pc h1a1 nb ivc ipc bz pz Let_def nd'_def bitsPerItemNode_def)
            have kl: "list_all2 (kidR K H s P) (slots bp) (pre @ [c'] @ post)"
              unfolding slp using rpre rpost rw rn by (auto intro!: list_all2_appendI)
            have wf_tree': "wf_tree K H s P (AT a1 nd' (pre @ [c'] @ post))"
              using s32 wv wP ws kl by (simp add: f_def nd'_def bp_def bv_def vs_def)
            have i2: "items (AT a1 nd' (pre @ [c'] @ post)) = A @ items c' @ C"
              by (simp add: A_def C_def nd'_def vs_def)
            have gr: "grows G h1 (AT a1 nd1 ks) (h2[a1 := nd']) (AT a1 nd' (pre @ [c'] @ post))"
              using ku(1) by (simp add: ks)
            have f7: "Some a1 = None \<longrightarrow> vals (node (AT a1 nd' (pre @ [c'] @ post))) = []" by simp
            have f8: "Some a1 \<noteq> None \<longrightarrow> Some a1 = Some (addr (AT a1 nd' (pre @ [c'] @ post))) \<and>
                (vs \<noteq> [] \<longrightarrow> vals (node (AT a1 nd' (pre @ [c'] @ post))) \<noteq> [])"
              by (simp add: nd'_def vs_def)
            show ?thesis using step f2 gr wf_tree' kr [folded i2] f7 f8 by blast
          qed
        qed
      next
        case kv: True
        have vin: "vs ! iv \<in> set (items (AT a1 nd1 ks))" using m(1) by (simp add: vs_def)
        then have "K (vs ! iv) \<in> K ` set (items (AT a1 nd1 ks))" by (rule imageI)
        then have f2: "True \<longleftrightarrow> key \<in> K ` set (items (AT a1 nd1 ks))" using kv by simp
        note ko = keys_only [OF dk1 vin kv]
        show ?thesis
        proof (cases "bit bp p")
          case nbp: False
          define nd' where "nd' = nd1\<lparr>bmVal := bmVal nd1 AND NOT (2 ^ p),
              vals := take iv (vals nd1) @ drop (Suc iv) (vals nd1)\<rparr>"
          define r where "r = (if bmVal nd' = 0 \<and> bmPtr nd' = 0 then None else Some a1)"
          have step: "without K h a G key (H key) s = Some (h1[a1 := nd'], r, True)"
            using s32 bvp ivl kv [unfolded vs_def] nbp
            by (subst without.simps)
               (simp add: pc h1a1 nb ivc ipc bz pz Let_def nd'_def r_def)
          have gr: "grows G h1 (AT a1 nd1 ks) (h1[a1 := nd']) (AT a1 nd' ks)"
            by (rule root_update [OF r1 gen1 d1]) (simp_all add: nd'_def gen1)
          have v': "vals nd' = take iv vs @ drop (Suc iv) vs" by (simp add: nd'_def vs_def)
          have sl': "slots (bmVal nd') = lo bv p @ hi bv p"
            by (simp add: nd'_def slots_clear_bit [OF p] bv_def)
          have mv: "map f (vals nd') = slots (bmVal nd')"
            unfolding sl' v' using m(4,5) by simp
          have ws': "set (slots (bmPtr nd')) \<subseteq> set (slots (bmVal nd'))"
            using ws nbp by (auto simp: nd'_def set_slots bit_andnot_bit bp_def bv_def)
          have P3: "\<forall>v\<in>set (vals nd'). P (H (K v))"
            using wP unfolding v' by (auto dest: in_set_takeD in_set_dropD)
          have wf_tree': "wf_tree K H s P (AT a1 nd' ks)"
            using s32 mv ws' P3 wk by (simp add: f_def bp_def) (simp add: nd'_def)
          define A where "A = take iv vs"
          define C where "C = drop (Suc iv) vs @ concat (map items ks)"
          have i1: "items (AT a1 nd1 ks) = A @ [vs ! iv] @ C"
            using vsplit by (simp add: A_def C_def vs_def [symmetric])
          have i2: "items (AT a1 nd' ks) = A @ [] @ C"
            by (simp add: A_def C_def v')
          have nAC: "\<And>x. x \<in> set A \<union> set C \<Longrightarrow> K x \<noteq> key"
            using dk1 kv unfolding i1 distinct_keys_app3 by auto
          have e: "set [] = {x \<in> set [vs ! iv]. K x \<noteq> key}" using kv by auto
          have f5: "distinct (map K (items (AT a1 nd' ks)))"
            unfolding i2 by (rule keys_remove(1) [OF dk1 [unfolded i1] _ e nAC]) simp
          have f6: "set (items (AT a1 nd' ks)) = {x \<in> set (items (AT a1 nd1 ks)). K x \<noteq> key}"
            unfolding i1 i2 by (rule keys_remove(2) [OF dk1 [unfolded i1] _ e nAC]) simp
          have z: "bmVal nd' = 0 \<longleftrightarrow> vals nd' = []"
            using mv by (metis slots_Nil map_is_Nil_conv)
          have z2: "bmVal nd' = 0 \<Longrightarrow> bmPtr nd' = 0"
            using ws' by (metis slots_Nil set_empty subset_empty)
          have f7: "r = None \<longrightarrow> vals (node (AT a1 nd' ks)) = []"
            using z by (simp add: r_def split: if_splits)
          have f8: "r \<noteq> None \<longrightarrow> r = Some (addr (AT a1 nd' ks)) \<and>
              (vs \<noteq> [] \<longrightarrow> vals (node (AT a1 nd' ks)) \<noteq> [])"
            using z z2 by (auto simp: r_def)
          show ?thesis using step f2 gr wf_tree' f5 f6 f7 f8 by blast
        next
          case bpp: True
          then have slp: "slots bp = lo bp p @ p # hi bp p" by (simp add: slots_lo_hi [OF p])
          from kids_split [OF wk [unfolded slp]] obtain pre c post where
            ks: "ks = pre @ c # post" and lp: "length pre = ip" and
            rpre: "list_all2 (kidR K H s P) (lo bp p) pre" and rc: "kidR K H s P p c" and
            rpost: "list_all2 (kidR K H s P) (hi bp p) post" unfolding ip_def by blast
          have pc': "ptrs nd1 ! ip = addr c" and ipl: "ip < length (ptrs nd1)"
            using lp by (auto simp: pt1 ks nth_append)
          have rec: "\<exists>h2 r item. pullUp h1 (addr c) G = Some (h2, r, item) \<and> item \<in> set (items c) \<and>
             length h1 \<le> length h2 \<and> (\<forall>b<length h1. b \<notin> set (gaddrs G c) \<longrightarrow> h2 ! b = h1 ! b) \<and>
             ((r = None \<and> set (items c) = {item}) \<or>
              (\<exists>c'. r = Some (addr c') \<and> grows G h1 c h2 c' \<and>
                    wf_tree K H (s + 5) (\<lambda>x. P x \<and> chunk x s = p) c' \<and>
                    distinct (map K (items c')) \<and> set (items c') = set (items c) - {item} \<and>
                    vals (node c') \<noteq> []))"
          proof (rule pullUp_tree)
            show "repr h1 c" using r1 by (simp add: ks)
            show "distinct (gaddrs G c)" using d1 by (simp add: ks)
            show "wf_tree K H (s + 5) (\<lambda>x. P x \<and> chunk x s = p) c" using rc by simp
            show "distinct (map K (items c))" using dk1 by (simp add: ks)
            show "vals (node c) \<noteq> []" using rc by simp
          qed
          then obtain h2 r item where
            rstep: "pullUp h1 (addr c) G = Some (h2, r, item)" and ri: "item \<in> set (items c)" and
            l12: "length h1 \<le> length h2" and
            rf: "\<forall>b<length h1. b \<notin> set (gaddrs G c) \<longrightarrow> h2 ! b = h1 ! b" and
            alt: "(r = None \<and> set (items c) = {item}) \<or>
              (\<exists>c'. r = Some (addr c') \<and> grows G h1 c h2 c' \<and>
                    wf_tree K H (s + 5) (\<lambda>x. P x \<and> chunk x s = p) c' \<and>
                    distinct (map K (items c')) \<and> set (items c') = set (items c) - {item} \<and>
                    vals (node c') \<noteq> [])" by blast
          have iP: "P (H (K item))" and fi: "f item = p"
            using wf_items_P [OF rc [THEN conjunct1] ri] by (simp_all add: f_def)
          have k1: "repr h1 (AT a1 nd1 (pre @ [c] @ post))" using r1 by (simp add: ks)
          have k3: "distinct (gaddrs G (AT a1 nd1 (pre @ [c] @ post)))" using d1 by (simp add: ks)
          have k5: "\<And>b. b < length h1 \<Longrightarrow> b \<notin> set (concat (map (gaddrs G) [c])) \<Longrightarrow> h2 ! b = h1 ! b"
            using rf by simp
          define A where "A = take iv vs"
          define B where "B = drop (Suc iv) vs @ concat (map items pre)"
          define D where "D = concat (map items post)"
          have i1: "items (AT a1 nd1 ks) = A @ [vs ! iv] @ B @ items c @ D"
            using vsplit by (simp add: A_def B_def D_def vs_def [symmetric] ks)
          have vu: "(vals nd1)[iv := item] = take iv vs @ item # drop (Suc iv) vs"
            using m(1) by (simp add: vs_def upd_conv_take_nth_drop)
          have "map f ((vals nd1)[iv := item]) = (map f vs)[iv := f item]"
            by (simp add: vs_def map_update)
          also have "\<dots> = map f vs"
            using m(2) fi by (metis list_update_id nth_map m(1))
          finally have mv: "map f ((vals nd1)[iv := item]) = slots bv" using wv by simp
          have P3: "\<forall>v\<in>set ((vals nd1)[iv := item]). P (H (K v))"
            using wP iP unfolding vu by (auto dest: in_set_takeD in_set_dropD)
          from alt show ?thesis
          proof (elim disjE conjE exE)
            assume r: "r = None" and ic: "set (items c) = {item}"
            define nd' where "nd' = nd1\<lparr>vals := (vals nd1)[iv := item],
                bmPtr := bmPtr nd1 AND NOT (2 ^ p),
                ptrs := take ip (ptrs nd1) @ drop (Suc ip) (ptrs nd1)\<rparr>"
            have pn: "ptrs nd' = map addr (pre @ [] @ post)"
              using lp by (simp add: nd'_def pt1 ks)
            have k11: "generation nd' = G" by (simp add: nd'_def gen1)
            have ku: "grows G h1 (AT a1 nd1 (pre @ [c] @ post)) (h2[a1 := nd']) (AT a1 nd' (pre @ [] @ post))"
              "h2 ! a1 = nd1"
              by (rule kids_update [OF k1 gen1 k3 l12 k5 _ _ _ _ pn k11]; simp)+
            have d2: "deref h2 a1 = Some nd1" using ku(2) h1a1(2) l12 by (simp add: deref_def)
            have step: "without K h a G key (H key) s = Some (h2[a1 := nd'], Some a1, True)"
              using s32 bvp ivl kv [unfolded vs_def] bpp ipl pc' rstep d2 r
              by (subst without.simps)
                 (simp add: pc h1a1 nb ivc ipc bz pz Let_def nd'_def)
            have slp': "slots (bmPtr nd') = lo bp p @ hi bp p"
              by (simp add: nd'_def slots_clear_bit [OF p] bp_def)
            have kl: "list_all2 (kidR K H s P) (slots (bmPtr nd')) (pre @ [] @ post)"
              unfolding slp' using rpre rpost by (auto intro!: list_all2_appendI)
            have ws': "set (slots (bmPtr nd')) \<subseteq> set (slots (bmVal nd'))"
              using ws by (auto simp: nd'_def set_slots bit_andnot_bit bp_def bv_def)
            have wf_tree': "wf_tree K H s P (AT a1 nd' (pre @ [] @ post))"
              using s32 mv P3 ws' kl by (simp add: f_def bv_def) (simp add: nd'_def)
            have i2: "items (AT a1 nd' (pre @ [] @ post)) = A @ [item] @ B @ [] @ D"
              by (simp add: A_def B_def D_def nd'_def vu)
            have e: "set [] = set (items c) - {item}" using ic by simp
            have f5: "distinct (map K (items (AT a1 nd' (pre @ [] @ post))))"
              unfolding i2 by (rule keys_move(1) [OF dk1 [unfolded i1] ri _ e]) simp
            have "set (items (AT a1 nd' (pre @ [] @ post))) = set (items (AT a1 nd1 ks)) - {vs ! iv}"
              unfolding i1 i2 by (rule keys_move(2) [OF dk1 [unfolded i1] ri _ e]) simp
            then have f6: "set (items (AT a1 nd' (pre @ [] @ post))) =
                {x \<in> set (items (AT a1 nd1 ks)). K x \<noteq> key}" using ko by simp
            have gr: "grows G h1 (AT a1 nd1 ks) (h2[a1 := nd']) (AT a1 nd' (pre @ [] @ post))"
              using ku(1) by (simp add: ks)
            have f7: "Some a1 = None \<longrightarrow> vals (node (AT a1 nd' (pre @ [] @ post))) = []" by simp
            have f8: "Some a1 \<noteq> None \<longrightarrow> Some a1 = Some (addr (AT a1 nd' (pre @ [] @ post))) \<and>
                (vs \<noteq> [] \<longrightarrow> vals (node (AT a1 nd' (pre @ [] @ post))) \<noteq> [])"
              using m(1) by (auto simp: nd'_def vs_def)
            show ?thesis using step f2 gr wf_tree' f5 f6 f7 f8 by blast
          next
            fix c' assume r: "r = Some (addr c')" and rg: "grows G h1 c h2 c'"
              and rw: "wf_tree K H (s + 5) (\<lambda>x. P x \<and> chunk x s = p) c'"
              and rd: "distinct (map K (items c'))" and rs: "set (items c') = set (items c) - {item}"
              and rn: "vals (node c') \<noteq> []"
            define nd' where "nd' = nd1\<lparr>vals := (vals nd1)[iv := item],
                ptrs := (ptrs nd1)[ip := addr c']\<rparr>"
            have pn: "ptrs nd' = map addr (pre @ [c'] @ post)"
              using lp by (simp add: nd'_def pt1 ks list_update_append)
            have k6: "\<And>k. k \<in> set [c'] \<Longrightarrow> repr h2 k" using growsD(1) [OF rg] by simp
            have k7: "set (concat (map addrs [c'])) \<subseteq> set (concat (map addrs [c])) \<union> {length h1..<length h2}"
              using growsD(6) [OF rg] by simp
            have k8: "set (concat (map (gaddrs G) [c'])) \<subseteq> set (concat (map (gaddrs G) [c])) \<union> {length h1..<length h2}"
              using growsD(7) [OF rg] by simp
            have k9: "distinct (concat (map (gaddrs G) [c']))" using growsD(2) [OF rg] by simp
            have k11: "generation nd' = G" by (simp add: nd'_def gen1)
            note ku = kids_update [OF k1 gen1 k3 l12 k5 k6 k7 k8 k9 pn k11]
            have d2: "deref h2 a1 = Some nd1" using ku(2) h1a1(2) l12 by (simp add: deref_def)
            have step: "without K h a G key (H key) s = Some (h2[a1 := nd'], Some a1, True)"
              using s32 bvp ivl kv [unfolded vs_def] bpp ipl pc' rstep d2 r
              by (subst without.simps)
                 (simp add: pc h1a1 nb ivc ipc bz pz Let_def nd'_def)
            have kl: "list_all2 (kidR K H s P) (slots bp) (pre @ [c'] @ post)"
              unfolding slp using rpre rpost rw rn by (auto intro!: list_all2_appendI)
            have wf_tree': "wf_tree K H s P (AT a1 nd' (pre @ [c'] @ post))"
              using s32 mv P3 ws kl by (simp add: f_def bv_def bp_def) (simp add: nd'_def)
            have i2: "items (AT a1 nd' (pre @ [c'] @ post)) = A @ [item] @ B @ items c' @ D"
              by (simp add: A_def B_def D_def nd'_def vu)
            have f5: "distinct (map K (items (AT a1 nd' (pre @ [c'] @ post))))"
              unfolding i2 by (rule keys_move(1) [OF dk1 [unfolded i1] ri rd rs])
            have "set (items (AT a1 nd' (pre @ [c'] @ post))) = set (items (AT a1 nd1 ks)) - {vs ! iv}"
              unfolding i1 i2 by (rule keys_move(2) [OF dk1 [unfolded i1] ri rd rs])
            then have f6: "set (items (AT a1 nd' (pre @ [c'] @ post))) =
                {x \<in> set (items (AT a1 nd1 ks)). K x \<noteq> key}" using ko by simp
            have gr: "grows G h1 (AT a1 nd1 ks) (h2[a1 := nd']) (AT a1 nd' (pre @ [c'] @ post))"
              using ku(1) by (simp add: ks)
            have f7: "Some a1 = None \<longrightarrow> vals (node (AT a1 nd' (pre @ [c'] @ post))) = []" by simp
            have f8: "Some a1 \<noteq> None \<longrightarrow> Some a1 = Some (addr (AT a1 nd' (pre @ [c'] @ post))) \<and>
                (vs \<noteq> [] \<longrightarrow> vals (node (AT a1 nd' (pre @ [c'] @ post))) \<noteq> [])"
              using m(1) by (auto simp: nd'_def vs_def)
            show ?thesis using step f2 gr wf_tree' f5 f6 f7 f8 by blast
          qed
        qed
      qed
    qed
  qed
  then obtain h' r ok t' where
    1: "without K h a G key (H key) s = Some (h', r, ok)"
       "ok \<longleftrightarrow> key \<in> K ` set (items (AT a1 nd1 ks))" and
    2: "grows G h1 (AT a1 nd1 ks) h' t'" and
    3: "wf_tree K H s P t'" "distinct (map K (items t'))"
       "set (items t') = {x \<in> set (items (AT a1 nd1 ks)). K x \<noteq> key}"
       "r = None \<longrightarrow> vals (node t') = []"
       "r \<noteq> None \<longrightarrow> r = Some (addr t') \<and> (vs \<noteq> [] \<longrightarrow> vals (node t') \<noteq> [])" by blast
  from grows_trans [OF g1 2] have "grows G h (AT a nd ks) h' t'" .
  with 1 3 show ?case unfolding it1
    by (intro exI [of _ h'] exI [of _ r] exI [of _ ok] exI [of _ t']) (simp add: vsn)
qed

lemma forEach_items:
  "(\<And>t. t \<in> set ts \<Longrightarrow> repr h t) \<Longrightarrow> forEach h (map addr ts) = Some (concat (map items ts))"
proof (induction "size_list size ts" arbitrary: ts rule: less_induct)
  case less
  show ?case
  proof (cases ts)
    case Nil
    then show ?thesis by (subst forEach.simps) simp
  next
    case (Cons t rest)
    obtain a nd ks where t: "t = AT a nd ks" by (cases t)
    have "t \<in> set ts" by (simp add: Cons)
    from less.prems [OF this] have r: "repr h (AT a nd ks)" by (simp add: t)
    then have d: "deref h a = Some nd" and pt: "ptrs nd = map addr ks" by (simp_all add: deref_def)
    have "forEach h (map addr (ks @ rest)) = Some (concat (map items (ks @ rest)))"
    proof (rule less.hyps)
      show "size_list size (ks @ rest) < size_list size ts" by (simp add: Cons t)
      fix k assume "k \<in> set (ks @ rest)"
      then consider "k \<in> set ks" | "k \<in> set ts" by (auto simp: Cons)
      then show "repr h k" using r less.prems by cases auto
    qed
    then show ?thesis
      by (subst forEach.simps) (simp add: Cons t d pt)
  qed
qed

lemma amap_Some:
  "distinct (map K xs) \<Longrightarrow> amap K xs k = Some x \<longleftrightarrow> x \<in> set xs \<and> K x = k"
proof
  assume "amap K xs k = Some x"
  then show "x \<in> set xs \<and> K x = k"
    by (auto simp: amap_def find_Some_iff)
next
  assume d: "distinct (map K xs)" and "x \<in> set xs \<and> K x = k"
  then show "amap K xs k = Some x" using find_unique [OF d, of x] by (auto simp: amap_def)
qed

lemma amap_eqI:
  assumes "distinct (map K xs)" "distinct (map K ys)" "\<And>x k. (x \<in> set ys \<and> K x = k) \<longleftrightarrow> m k = Some x"
  shows "amap K ys = m"
proof
  fix k
  show "amap K ys k = m k"
  proof (cases "m k")
    case None
    have "\<And>x. x \<in> set ys \<Longrightarrow> K x \<noteq> k"
    proof
      fix x assume "x \<in> set ys" "K x = k"
      then have "m k = Some x" using assms(3) [of x k] by simp
      with None show False by simp
    qed
    then have "amap K ys k = None" by (auto simp: amap_def find_None_iff)
    with None show ?thesis by simp
  next
    case (Some x)
    then have "x \<in> set ys \<and> K x = k" using assms(3) by blast
    then show ?thesis using Some amap_Some [OF assms(2)] by metis
  qed
qed

lemma amap_put:
  assumes "distinct (map K xs)" "distinct (map K ys)"
    "set ys = insert item {x \<in> set xs. K x \<noteq> K item}"
  shows "amap K ys = (amap K xs)(K item \<mapsto> item)"
proof (rule amap_eqI [OF assms(1,2)])
  fix x k
  show "(x \<in> set ys \<and> K x = k) \<longleftrightarrow> ((amap K xs)(K item \<mapsto> item)) k = Some x"
    using amap_Some [OF assms(1), of k x] assms(3) by auto
qed

lemma amap_delete:
  assumes "distinct (map K xs)" "distinct (map K ys)"
    "set ys = {x \<in> set xs. K x \<noteq> key}"
  shows "amap K ys = (amap K xs)(key := None)"
proof (rule amap_eqI [OF assms(1,2)])
  fix x k
  show "(x \<in> set ys \<and> K x = k) \<longleftrightarrow> ((amap K xs)(key := None)) k = Some x"
    using amap_Some [OF assms(1), of k x] assms(3) by auto
qed

lemma ran_amap: "distinct (map K xs) \<Longrightarrow> ran (amap K xs) = set xs"
  using amap_Some [of K xs] by (fastforce simp: ran_def)

lemma grows_gen_frame:
  assumes "grows G h t h' t'" "repr h t" "b < length h" "generation (h ! b) \<noteq> G"
  shows "h' ! b = h ! b"
proof -
  have "b \<notin> set (gaddrs G t)" using gaddrs_gen [OF assms(2)] assms(4) by blast
  then show ?thesis using growsD(5) [OF assms(1) assms(3)] by simp
qed

lemma Put_minv:
  assumes "minv K H h ht t"
  shows "\<exists>h' t'. Put K H h ht item = Some h' \<and> minv K H h' ht t' \<and>
           amap K (items t') = (amap K (items t))(K item \<mapsto> item) \<and>
           length h \<le> length h' \<and>
           (\<forall>b<length h. generation (h ! b) \<noteq> ht_generation ht \<longrightarrow> h' ! b = h ! b)"
proof -
  define G where "G = ht_generation ht"
  from assms have m: "mutable ht" and r: "root ht = Some (addr t)" and rp: "repr h t"
    and dg: "distinct (gaddrs G t)" and g: "generation (node t) = G"
    and w: "wf_tree K H 0 (\<lambda>_. True) t" and dk: "distinct (map K (items t))"
    by (simp_all add: minv_def G_def)
  from with_item_tree [OF rp dg w dk, of item] obtain h' t' where
    st: "with_item K h (addr t) G item (K item) (H (K item)) 0 = Some (h', addr t')" and
    gr: "grows G h t h' t'" and w': "wf_tree K H 0 (\<lambda>_. True) t'" and
    dk': "distinct (map K (items t'))" and
    s': "set (items t') = insert item {x \<in> set (items t). K x \<noteq> K item}" by auto
  have p: "Put K H h ht item = Some h'"
    using m r st by (simp add: Put_def G_def)
  have a: "addr t' = addr t" using growsD(8) [OF gr g] .
  have "minv K H h' ht t'"
    using m r a growsD(1,2,3) [OF gr] w' dk' by (simp add: minv_def G_def)
  moreover have "amap K (items t') = (amap K (items t))(K item \<mapsto> item)"
    by (rule amap_put [OF dk dk' s'])
  moreover have "\<forall>b<length h. generation (h ! b) \<noteq> G \<longrightarrow> h' ! b = h ! b"
    using grows_gen_frame [OF gr rp] by blast
  ultimately show ?thesis using p growsD(4) [OF gr] unfolding G_def by blast
qed

lemma Delete_minv:
  assumes "minv K H h ht t"
  shows "\<exists>h' ok t'. Delete K H h ht key = Some (h', ok) \<and> minv K H h' ht t' \<and>
           (ok \<longleftrightarrow> key \<in> K ` set (items t)) \<and>
           amap K (items t') = (amap K (items t))(key := None) \<and>
           length h \<le> length h' \<and>
           (\<forall>b<length h. generation (h ! b) \<noteq> ht_generation ht \<longrightarrow> h' ! b = h ! b)"
proof -
  define G where "G = ht_generation ht"
  from assms have m: "mutable ht" and r: "root ht = Some (addr t)" and rp: "repr h t"
    and dg: "distinct (gaddrs G t)" and g: "generation (node t) = G"
    and w: "wf_tree K H 0 (\<lambda>_. True) t" and dk: "distinct (map K (items t))"
    by (simp_all add: minv_def G_def)
  from without_tree [OF rp dg w dk, of key] obtain h' rr ok t' where
    st: "without K h (addr t) G key (H key) 0 = Some (h', rr, ok)" and
    ok: "ok \<longleftrightarrow> key \<in> K ` set (items t)" and
    gr: "grows G h t h' t'" and w': "wf_tree K H 0 (\<lambda>_. True) t'" and
    dk': "distinct (map K (items t'))" and
    s': "set (items t') = {x \<in> set (items t). K x \<noteq> key}" by auto
  have p: "Delete K H h ht key = Some (h', ok)"
    using m r st by (simp add: Delete_def G_def)
  have a: "addr t' = addr t" using growsD(8) [OF gr g] .
  have "minv K H h' ht t'"
    using m r a growsD(1,2,3) [OF gr] w' dk' by (simp add: minv_def G_def)
  moreover have "amap K (items t') = (amap K (items t))(key := None)"
    by (rule amap_delete [OF dk dk' s'])
  moreover have "\<forall>b<length h. generation (h ! b) \<noteq> G \<longrightarrow> h' ! b = h ! b"
    using grows_gen_frame [OF gr rp] by blast
  ultimately show ?thesis using p ok growsD(4) [OF gr] unfolding G_def by blast
qed

lemma run_ops_minv:
  assumes "minv K H h ht t"
  shows "\<exists>h' t'. run_ops K H h ht ops = Some h' \<and> minv K H h' ht t' \<and>
           amap K (items t') = last_put K ops (amap K (items t)) \<and>
           length h \<le> length h' \<and>
           (\<forall>b<length h. generation (h ! b) \<noteq> ht_generation ht \<longrightarrow> h' ! b = h ! b)"
  using assms
proof (induction ops arbitrary: h t)
  case Nil
  then show ?case by auto
next
  case (Cons op ops)
  show ?case
  proof (cases op)
    case (PutOp x)
    from Put_minv [OF Cons.prems, of x] obtain h1 t1 where
      1: "Put K H h ht x = Some h1" "minv K H h1 ht t1"
         "amap K (items t1) = (amap K (items t))(K x \<mapsto> x)" "length h \<le> length h1"
         "\<forall>b<length h. generation (h ! b) \<noteq> ht_generation ht \<longrightarrow> h1 ! b = h ! b" by blast
    from Cons.IH [OF 1(2)] obtain h' t' where
      2: "run_ops K H h1 ht ops = Some h'" "minv K H h' ht t'"
         "amap K (items t') = last_put K ops (amap K (items t1))" "length h1 \<le> length h'"
         "\<forall>b<length h1. generation (h1 ! b) \<noteq> ht_generation ht \<longrightarrow> h' ! b = h1 ! b" by blast
    have f: "\<forall>b<length h. generation (h ! b) \<noteq> ht_generation ht \<longrightarrow> h' ! b = h ! b"
      using 1(4,5) 2(5) by (metis less_le_trans)
    have "run_ops K H h ht (op # ops) = Some h'" using 1(1) 2(1) PutOp by simp
    moreover have "amap K (items t') = last_put K (op # ops) (amap K (items t))"
      using 1(3) 2(3) PutOp by simp
    moreover have "length h \<le> length h'" using 1(4) 2(4) by simp
    ultimately show ?thesis using 2(2) f by blast
  next
    case (DeleteOp k)
    from Delete_minv [OF Cons.prems, of k] obtain h1 ok t1 where
      1: "Delete K H h ht k = Some (h1, ok)" "minv K H h1 ht t1"
         "amap K (items t1) = (amap K (items t))(k := None)" "length h \<le> length h1"
         "\<forall>b<length h. generation (h ! b) \<noteq> ht_generation ht \<longrightarrow> h1 ! b = h ! b" by blast
    from Cons.IH [OF 1(2)] obtain h' t' where
      2: "run_ops K H h1 ht ops = Some h'" "minv K H h' ht t'"
         "amap K (items t') = last_put K ops (amap K (items t1))" "length h1 \<le> length h'"
         "\<forall>b<length h1. generation (h1 ! b) \<noteq> ht_generation ht \<longrightarrow> h' ! b = h1 ! b" by blast
    have f: "\<forall>b<length h. generation (h ! b) \<noteq> ht_generation ht \<longrightarrow> h' ! b = h ! b"
      using 1(4,5) 2(5) by (metis less_le_trans)
    have "run_ops K H h ht (op # ops) = Some h'" using 1(1) 2(1) DeleteOp by simp
    moreover have "amap K (items t') = last_put K (op # ops) (amap K (items t))"
      using 1(3) 2(3) DeleteOp by simp
    moreover have "length h \<le> length h'" using 1(4) 2(4) by simp
    ultimately show ?thesis using 2(2) f by blast
  qed
qed

lemma gaddrs_no_gen: "G \<notin> set (gens t) \<Longrightarrow> gaddrs G t = []"
  by (induction t) auto

lemma repr_addr_gen: "repr h t \<Longrightarrow> b \<in> set (addrs t) \<Longrightarrow> generation (h ! b) \<in> set (gens t)"
  by (induction t) auto

lemma repr_gen_frame:
  assumes "repr h t" "G \<notin> set (gens t)" "length h \<le> length h'"
    and "\<forall>b<length h. generation (h ! b) \<noteq> G \<longrightarrow> h' ! b = h ! b"
  shows "repr h' t"
proof (rule repr_frame [OF assms(1,3)])
  fix b assume b: "b \<in> set (addrs t)"
  have "generation (h ! b) \<noteq> G" using repr_addr_gen [OF assms(1) b] assms(2) by auto
  then show "h' ! b = h ! b" using assms(4) addrs_lt [OF assms(1) b] by simp
qed

lemma Get_snapshot:
  assumes "snapshot K H h S t"
  shows "Get K H h S key = Some (find (\<lambda>x. K x = key) (items t))"
proof -
  from assms have r: "root S = Some (addr t)" and rp: "repr h t"
    and w: "wf_tree K H 0 (\<lambda>_. True) t" and dk: "distinct (map K (items t))"
    by (simp_all add: snapshot_def)
  show ?thesis using get_loop_find [OF rp w dk, of key] r by (simp add: Get_def)
qed

lemma ForEach_tree:
  assumes "root S = Some (addr t)" "repr h t"
  shows "ForEach h S = Some (items t)"
  using forEach_items [of "[t]" h] assms by (simp add: ForEach_def)

lemma Mutable_empty:
  assumes "root ht = None"
  shows "\<exists>h1 M t. Mutable h ht = Some (h1, M) \<and> minv K H h1 M t \<and> items t = [] \<and>
           ht_generation M = ht_generation ht + 1 \<and> length h \<le> length h1 \<and>
           (\<forall>b<length h. h1 ! b = h ! b)"
proof -
  define G where "G = ht_generation ht + 1"
  define e :: "'a nodeItem" where "e = \<lparr>generation = G, bmVal = 0, bmPtr = 0, vals = [], ptrs = []\<rparr>"
  define M where "M = \<lparr>root = Some (Suc (length h)), mutable = True, ht_generation = G\<rparr>"
  have m: "Mutable h ht = Some (h @ [e, e], M)"
    using assms
    by (simp add: Mutable_def Let_def dup_def deref_def G_def e_def M_def nth_append
        list_update_append)
  have i: "minv K H (h @ [e, e]) M (AT (Suc (length h)) e [])"
    by (simp add: minv_def M_def e_def nth_append)
  have f: "\<forall>b<length h. (h @ [e, e]) ! b = h ! b" by (simp add: nth_append)
  have g: "ht_generation M = ht_generation ht + 1" by (simp add: M_def G_def)
  have l: "length h \<le> length (h @ [e, e])" by simp
  have it: "items (AT (Suc (length h)) e []) = []" by (simp add: e_def)
  show ?thesis using m i it g l f by blast
qed

lemma Mutable_snapshot:
  assumes "snapshot K H h S t" "ht_generation S + 1 \<notin> set (gens t)"
  shows "\<exists>h1 M t1. Mutable h S = Some (h1, M) \<and> minv K H h1 M t1 \<and> items t1 = items t \<and>
           ht_generation M = ht_generation S + 1 \<and> length h \<le> length h1 \<and>
           (\<forall>b<length h. h1 ! b = h ! b)"
proof -
  obtain a nd ks where t: "t = AT a nd ks" by (cases t)
  define G where "G = ht_generation S + 1"
  define nd1 where "nd1 = nd\<lparr>generation := G\<rparr>"
  define h1 where "h1 = h @ [nd1]"
  define M where "M = \<lparr>root = Some (length h), mutable = True, ht_generation = G\<rparr>"
  from assms(1) have r: "root S = Some a" and rp: "repr h (AT a nd ks)"
    and w: "wf_tree K H 0 (\<lambda>_. True) (AT a nd ks)" and dk: "distinct (map K (items (AT a nd ks)))"
    by (simp_all add: snapshot_def t)
  from rp have a: "a < length h" "h ! a = nd" and pt: "ptrs nd = map addr ks" by simp_all
  have m: "Mutable h S = Some (h1, M)"
    using r a by (simp add: Mutable_def Let_def dup_def deref_def G_def nd1_def h1_def M_def)
  have kg: "\<And>k. k \<in> set ks \<Longrightarrow> gaddrs G k = []"
  proof -
    fix k assume "k \<in> set ks"
    then have "G \<notin> set (gens k)" using assms(2) by (auto simp: t G_def)
    then show "gaddrs G k = []" by (rule gaddrs_no_gen)
  qed
  then have cg: "concat (map (gaddrs G) ks) = []" by simp
  have fr: "\<forall>b<length h. h1 ! b = h ! b" by (simp add: h1_def nth_append)
  have rk: "\<And>k. k \<in> set ks \<Longrightarrow> repr h1 k"
  proof -
    fix k assume k: "k \<in> set ks"
    with rp have "repr h k" by simp
    then show "repr h1 k"
      by (rule repr_frame) (use fr addrs_lt [OF \<open>repr h k\<close>] in \<open>auto simp: h1_def\<close>)
  qed
  have rp1: "repr h1 (AT (length h) nd1 ks)"
    using rk pt by (simp add: h1_def nd1_def)
  have w1: "wf_tree K H 0 (\<lambda>_. True) (AT (length h) nd1 ks)"
    using w unfolding nd1_def by simp
  have dg: "distinct (gaddrs G (AT (length h) nd1 ks))"
    unfolding gaddrs.simps cg by simp
  have "minv K H h1 M (AT (length h) nd1 ks)"
    unfolding minv_def using rp1 w1 dk dg by (simp add: M_def nd1_def)
  moreover have "items (AT (length h) nd1 ks) = items t" by (simp add: t nd1_def)
  moreover have "length h \<le> length h1" by (simp add: h1_def)
  moreover have "ht_generation M = ht_generation S + 1" by (simp add: M_def G_def)
  ultimately show ?thesis using m fr by blast
qed

text \<open>
  C3. Any sequence of \<open>Put\<close> and \<open>Delete\<close> operations on the handle that
  \<open>ItemHamt{}.Mutable()\<close> returns runs without a panic, and afterwards \<open>ForEach\<close>
  enumerates exactly the items whose key was last touched by a \<open>Put\<close> (the range of
  \<open>last_put\<close>, the map that a \<open>Put\<close> updates at the key of its item and a \<open>Delete\<close>
  clears at its key), no two of the enumerated items having the same key, so none
  appears twice; \<open>Get\<close> agrees with the same map.
\<close>

theorem ForEach_last_puts:
  "\<exists>h1 M. Mutable h \<lparr>root = None, mutable = False, ht_generation = 0\<rparr> = Some (h1, M) \<and>
     (\<exists>h' xs. run_ops K H h1 M ops = Some h' \<and> ForEach h' M = Some xs \<and>
        distinct (map K xs) \<and> set xs = ran (last_put K ops Map.empty) \<and>
        (\<forall>k. Get K H h' M k = Some (last_put K ops Map.empty k)))"
proof -
  let ?z = "\<lparr>root = None, mutable = False, ht_generation = 0\<rparr>"
  from Mutable_empty [of ?z h K H] obtain h1 M t where
    m: "Mutable h ?z = Some (h1, M)" and i: "minv K H h1 M t" and e: "items t = []" by auto
  from run_ops_minv [OF i, of ops] obtain h' t' where
    r: "run_ops K H h1 M ops = Some h'" and i': "minv K H h' M t'" and
    a: "amap K (items t') = last_put K ops (amap K (items t))" by blast
  from i' have rt: "root M = Some (addr t')" and rp: "repr h' t'"
    and dk: "distinct (map K (items t'))" and sn: "snapshot K H h' M t'"
    by (simp_all add: minv_def snapshot_def)
  have am: "amap K (items t') = last_put K ops Map.empty" using a e by (simp add: amap_def)
  have f: "ForEach h' M = Some (items t')" by (rule ForEach_tree [OF rt rp])
  have s: "set (items t') = ran (last_put K ops Map.empty)"
    using ran_amap [OF dk] am by simp
  have g: "\<forall>k. Get K H h' M k = Some (last_put K ops Map.empty k)"
    using Get_snapshot [OF sn] am by (simp add: amap_def fun_eq_iff)
  show ?thesis using m r f dk s g by blast
qed

text \<open>
  C4, as amended. Let \<open>S\<close> be a handle whose root represents a well-formed trie with
  distinct keys (\<open>snapshot\<close>), none of whose nodes carries the generation
  \<open>S.generation + 1\<close> that \<open>Mutable\<close> gives to the derived handle. Then any sequence of
  \<open>Put\<close> and \<open>Delete\<close> operations on \<open>S.Mutable()\<close> runs without a panic and leaves what
  \<open>Get\<close> returns on \<open>S\<close> unchanged, for every key: the item of the snapshot with that
  key, if there is one.
\<close>

theorem snapshot_isolation:
  assumes "snapshot K H h S t" "ht_generation S + 1 \<notin> set (gens t)"
  shows "\<exists>h1 M. Mutable h S = Some (h1, M) \<and>
           (\<exists>h'. run_ops K H h1 M ops = Some h' \<and>
                 Get K H h' S k = Get K H h S k \<and>
                 Get K H h S k = Some (find (\<lambda>x. K x = k) (items t)))"
proof -
  from Mutable_snapshot [OF assms] obtain h1 M t1 where
    m: "Mutable h S = Some (h1, M)" and i: "minv K H h1 M t1" and
    g: "ht_generation M = ht_generation S + 1" and l1: "length h \<le> length h1" and
    f1: "\<forall>b<length h. h1 ! b = h ! b" by blast
  from run_ops_minv [OF i, of ops] obtain h' t' where
    r: "run_ops K H h1 M ops = Some h'" and "minv K H h' M t'" and
    l2: "length h1 \<le> length h'" and
    f2: "\<forall>b<length h1. generation (h1 ! b) \<noteq> ht_generation M \<longrightarrow> h' ! b = h1 ! b" by blast
  have fr: "\<forall>b<length h. generation (h ! b) \<noteq> ht_generation S + 1 \<longrightarrow> h' ! b = h ! b"
    using f1 f2 l1 g by (metis less_le_trans)
  from assms(1) have rp: "repr h t" by (simp add: snapshot_def)
  have "length h \<le> length h'" using l1 l2 by simp
  from repr_gen_frame [OF rp assms(2) this fr] have "repr h' t" .
  with assms(1) have sn': "snapshot K H h' S t" by (simp add: snapshot_def)
  show ?thesis using m r Get_snapshot [OF sn'] Get_snapshot [OF assms(1)] by simp
qed

text \<open>
  The generation of a handle is a \<open>uint32\<close> that \<open>Mutable\<close> increments, and nothing
  in the code keeps it from wrapping. A trie built in generation 1 (a root holding the
  key 0 and, below it, a node holding the colliding key 32), frozen and then taken
  through \<open>Mutable\<close> and \<open>Freeze\<close> another \<open>2^32 - 1\<close> times is the snapshot
  \<open>wrapped_snapshot\<close>: the handle and its root have the generation 0 again and the
  child still has the generation 1. \<open>Mutable\<close> on that snapshot gives a handle of
  generation 1, for which the old child counts as its own: a \<open>Put\<close> of the key 32
  writes into the child in place, and \<open>Get\<close> on the frozen snapshot returns the new
  item.
\<close>

theorem snapshot_changed_after_wrap:
  "snapshot fst of_nat wrapped_heap wrapped_snapshot wrapped_tree \<and>
   Get fst of_nat wrapped_heap wrapped_snapshot 32 = Some (Some (32 :: nat, 20 :: nat)) \<and>
   Mutable wrapped_heap wrapped_snapshot =
     Some (wrapped_heap @ [\<lparr>generation = 1, bmVal = 1, bmPtr = 1, vals = [(0, 10)], ptrs = [1]\<rparr>],
           \<lparr>root = Some 2, mutable = True, ht_generation = 1\<rparr>) \<and>
   run_ops fst of_nat
     (wrapped_heap @ [\<lparr>generation = 1, bmVal = 1, bmPtr = 1, vals = [(0, 10)], ptrs = [1]\<rparr>])
     \<lparr>root = Some 2, mutable = True, ht_generation = 1\<rparr> [PutOp (32, 99)] =
     Some [\<lparr>generation = 0, bmVal = 1, bmPtr = 1, vals = [(0, 10)], ptrs = [1]\<rparr>,
           \<lparr>generation = 1, bmVal = 2, bmPtr = 0, vals = [(32, 99)], ptrs = []\<rparr>,
           \<lparr>generation = 1, bmVal = 1, bmPtr = 1, vals = [(0, 10)], ptrs = [1]\<rparr>] \<and>
   Get fst of_nat
     [\<lparr>generation = 0, bmVal = 1, bmPtr = 1, vals = [(0, 10)], ptrs = [1]\<rparr>,
      \<lparr>generation = 1, bmVal = 2, bmPtr = 0, vals = [(32, 99)], ptrs = []\<rparr>,
      \<lparr>generation = 1, bmVal = 1, bmPtr = 1, vals = [(0, 10)], ptrs = [1]\<rparr>]
     wrapped_snapshot 32 = Some (Some (32 :: nat, 99 :: nat))"
  by code_simp

text \<open>The same trie frozen in generation 1: the hypotheses hold and the snapshot
  keeps its item.\<close>

theorem snapshot_isolation_witness:
  "snapshot fst of_nat frozen_heap frozen_snapshot frozen_tree \<and>
   ht_generation frozen_snapshot + 1 \<notin> set (gens frozen_tree) \<and>
   (\<exists>h1 M. Mutable frozen_heap frozen_snapshot = Some (h1, M) \<and>
      (\<exists>h'. run_ops fst of_nat h1 M [PutOp (32, 99), DeleteOp 0] = Some h' \<and>
         Get fst of_nat h' frozen_snapshot 32 = Get fst of_nat frozen_heap frozen_snapshot 32 \<and>
         Get fst of_nat frozen_heap frozen_snapshot 32 =
           Some (find (\<lambda>x. fst x = 32) (items frozen_tree))))"
proof -
  have a: "snapshot fst (of_nat :: nat \<Rightarrow> 32 word) frozen_heap frozen_snapshot frozen_tree"
    by code_simp
  have b: "ht_generation frozen_snapshot + 1 \<notin> set (gens frozen_tree)"
    by code_simp
  show ?thesis
    using a b snapshot_isolation [OF a b, of "[PutOp (32, 99), DeleteOp 0]" 32] by blast
qed

text \<open>A run on the key function \<open>fst\<close>, with the hash of a key its value as a
  \<open>uint32\<close>: the keys 0 and 32 collide in the root.\<close>

lemma ForEach_example:
  "Mutable ([] :: (nat \<times> nat) heap) \<lparr>root = None, mutable = False, ht_generation = 0\<rparr> =
     Some ([\<lparr>generation = 1, bmVal = 0, bmPtr = 0, vals = [], ptrs = []\<rparr>,
            \<lparr>generation = 1, bmVal = 0, bmPtr = 0, vals = [], ptrs = []\<rparr>],
           \<lparr>root = Some 1, mutable = True, ht_generation = 1\<rparr>) \<and>
   map_option (\<lambda>h. ForEach h \<lparr>root = Some 1, mutable = True, ht_generation = 1\<rparr>)
     (run_ops fst (of_nat :: nat \<Rightarrow> 32 word)
        [\<lparr>generation = 1, bmVal = 0, bmPtr = 0, vals = [], ptrs = []\<rparr>,
         \<lparr>generation = 1, bmVal = 0, bmPtr = 0, vals = [], ptrs = []\<rparr>]
        \<lparr>root = Some 1, mutable = True, ht_generation = 1\<rparr>
        [PutOp (0, 10), PutOp (32, 20), PutOp (1, 30), PutOp (0, 11), DeleteOp 32, DeleteOp 7]) =
     Some (Some [(0 :: nat, 11 :: nat), (1, 30)])"
  by code_simp

section \<open>Chunk chains and table information: properties\<close>

lemma un_be_snoc: "un_be (bs @ [b]) = un_be bs * 256 + unat b"
  by (simp add: un_be_def)

lemma length_be [simp]: "length (be k n) = k"
  by (induction k arbitrary: n) auto

lemma un_be_be: "un_be (be k n) = n mod 256 ^ k"
proof (induction k arbitrary: n)
  case 0
  show ?case by (simp add: un_be_def)
next
  case (Suc k)
  have "unat (of_nat n :: 8 word) = n mod 256" by (simp add: unat_of_nat)
  then show ?case using Suc [of "n div 256"] by (simp add: un_be_snoc mod_mult2_eq)
qed

lemma getN_be: "n < 256 ^ k \<Longrightarrow> getN k (be k n @ r) = Some (n, r)"
  by (simp add: getN_def un_be_be)

lemma amap_Nil [simp]: "amap K [] = Map.empty"
  by (simp add: amap_def)

lemma amap_Cons: "amap K (x # xs) = (amap K xs) ++ [K x \<mapsto> x]"
  by (auto simp: amap_def fun_eq_iff map_add_def)

lemma amap_append: "amap K (xs @ ys) = amap K ys ++ amap K xs"
proof
  fix k
  show "amap K (xs @ ys) k = (amap K ys ++ amap K xs) k"
    by (induction xs) (simp_all add: amap_def map_add_def)
qed

lemma shadow_present:
  "m k = Some y \<Longrightarrow> (n ++ [k \<mapsto> x]) ++ m = n ++ m"
  by (auto simp: fun_eq_iff map_add_def split: option.splits)

lemma shadow_absent:
  "m k = None \<Longrightarrow> (n ++ [k \<mapsto> x]) ++ m = n ++ m(k \<mapsto> x)"
  by (auto simp: fun_eq_iff map_add_def split: option.splits)

lemma minv_snapshot: "minv K H h M t \<Longrightarrow> snapshot K H h M t"
  by (simp add: minv_def snapshot_def)

lemma read_items_merge:
  assumes "codec_ok c valid norm"
  shows "minv K H h M t \<Longrightarrow> \<forall>x\<in>set its. valid x \<Longrightarrow>
    \<exists>h' t'. read_items K H c st (concat (map (itemWrite c) its)) h M = Some h' \<and>
       minv K H h' M t' \<and>
       amap K (items t') = amap K (map norm its) ++ amap K (items t)"
proof (induction its arbitrary: h t)
  case Nil
  have "read_items K H c st [] h M = Some h" by (subst read_items.simps) simp
  with Nil show ?case by auto
next
  case (Cons x xs)
  let ?r = "concat (map (itemWrite c) xs)"
  from Cons.prems(2) have vx: "valid x" and vxs: "\<forall>x\<in>set xs. valid x" by simp_all
  from assms vx have len: "length (itemWrite c x) = storSize c x" "0 < storSize c x"
    and rd: "ReadItem c st (itemWrite c x @ ?r) = Some (norm x, ?r)"
    by (simp_all add: codec_ok_def)
  have g: "Get K H h M (K (norm x)) = Some (amap K (items t) (K (norm x)))"
    using Get_snapshot [OF minv_snapshot [OF Cons.prems(1)]] by (simp add: amap_def)
  show ?case
  proof (cases "amap K (items t) (K (norm x))")
    case (Some y)
    from Cons.IH [OF Cons.prems(1) vxs] obtain h' t' where
      1: "read_items K H c st ?r h M = Some h'" "minv K H h' M t'"
         "amap K (items t') = amap K (map norm xs) ++ amap K (items t)" by blast
    have "read_items K H c st (concat (map (itemWrite c) (x # xs))) h M = Some h'"
      using len rd g Some 1(1) by (subst read_items.simps) simp
    moreover have "amap K (items t') = amap K (map norm (x # xs)) ++ amap K (items t)"
      using 1(3) shadow_present [of "amap K (items t)" "K (norm x)" y, OF Some]
      by (simp add: amap_Cons)
    ultimately show ?thesis using 1(2) by blast
  next
    case None
    from Put_minv [OF Cons.prems(1), of "norm x"] obtain h1 t1 where
      p: "Put K H h M (norm x) = Some h1" "minv K H h1 M t1"
         "amap K (items t1) = (amap K (items t))(K (norm x) \<mapsto> norm x)" by blast
    from Cons.IH [OF p(2) vxs] obtain h' t' where
      1: "read_items K H c st ?r h1 M = Some h'" "minv K H h' M t'"
         "amap K (items t') = amap K (map norm xs) ++ amap K (items t1)" by blast
    have "read_items K H c st (concat (map (itemWrite c) (x # xs))) h M = Some h'"
      using len rd g None p(1) 1(1) by (subst read_items.simps) simp
    moreover have "amap K (items t') = amap K (map norm (x # xs)) ++ amap K (items t)"
      using 1(3) p(3) shadow_absent [of "amap K (items t)" "K (norm x)", OF None]
      by (simp add: amap_Cons)
    ultimately show ?thesis using 1(2) by blast
  qed
qed

lemma length_chunk_bytes:
  assumes "codec_ok c valid norm" "\<forall>x\<in>set its. valid x"
  shows "length (concat (map (itemWrite c) its)) = sum_list (map (storSize c) its)"
    and "length (chunk_bytes c prev its) = chunk_size c its"
proof -
  have "\<And>x. x \<in> set its \<Longrightarrow> length (itemWrite c x) = storSize c x"
    using assms by (simp add: codec_ok_def)
  then show 1: "length (concat (map (itemWrite c) its)) = sum_list (map (storSize c) its)"
    by (induction its) simp_all
  from assms(1) have "\<And>bs. length (cksumOf c bs) = cksumLen c" by (simp add: codec_ok_def)
  then show "length (chunk_bytes c prev its) = chunk_size c its"
    using 1 by (simp add: chunk_bytes_def chunk_size_def Put3_def Put5_def)
qed

lemma read_chunk:
  assumes ok: "codec_ok c valid norm" and inv: "minv K H h M t"
    and v: "\<forall>x\<in>set its. valid x"
    and a: "a + chunk_size c its \<le> length st"
    and ch: "take (chunk_size c its) (drop a st) = chunk_bytes c prev its"
    and n: "chunk_size c its < 2 ^ 24" and p: "prev < 2 ^ 40"
  shows "\<exists>h' t'. read K H c h M st a = Some (h', prev) \<and> minv K H h' M t' \<and>
           amap K (items t') = amap K (map norm its) ++ amap K (items t)"
proof -
  let ?n = "chunk_size c its"
  let ?pay = "concat (map (itemWrite c) its)"
  let ?buf = "Put3 ?n @ Put5 prev @ ?pay"
  define rest where "rest = drop ?n (drop a st)"
  have d: "drop a st = (?buf @ cksumOf c ?buf) @ rest"
    using ch append_take_drop_id [of ?n "drop a st"] by (simp add: rest_def chunk_bytes_def)
  have ck: "length (cksumOf c ?buf) = cksumLen c" using ok by (simp add: codec_ok_def)
  have lp: "length ?pay = sum_list (map (storSize c) its)"
    by (rule length_chunk_bytes(1) [OF ok v])
  have lb: "length ?buf = ?n - cksumLen c" "cksumLen c \<le> ?n" "3 \<le> ?n - cksumLen c"
    using lp by (simp_all add: chunk_size_def Put3_def Put5_def)
  have g3: "Get3 (drop a st) = Some (?n, drop 3 (drop a st))"
  proof -
    have "drop a st = be 3 ?n @ (Put5 prev @ ?pay @ cksumOf c ?buf @ rest)"
      using d by (simp add: Put3_def)
    then show ?thesis using getN_be [of ?n 3] n by (simp add: Get3_def getN_def un_be_be)
  qed
  have le: "?n \<le> length (drop a st)" using a by simp
  have tk: "take ?n (drop a st) = ?buf @ cksumOf c ?buf"
    using ch by (simp add: chunk_bytes_def)
  have mc: "MustCheck c (?buf @ cksumOf c ?buf)"
    using ck lb by (simp add: MustCheck_def)
  have tk2: "take (?n - cksumLen c) (drop a st) = ?buf"
    using d lb(1) by simp
  have g5: "Get5 (drop 3 ?buf) = Some (prev, ?pay)"
    using getN_be [of prev 5 ?pay] p by (simp add: Get5_def Put5_def Put3_def)
  from read_items_merge [OF ok inv v, of st] obtain h' t' where
    r: "read_items K H c st ?pay h M = Some h'" and i': "minv K H h' M t'" and
    am: "amap K (items t') = amap K (map norm its) ++ amap K (items t)" by blast
  have "read K H c h M st a = Some (h', prev)"
    using a g3 le tk mc lb g5 r tk2 by (simp add: read_def Let_def)
  then show ?thesis using i' am by blast
qed

lemma chain_loop_merge:
  assumes ok: "codec_ok c valid norm"
  shows "chain_at c valid st cs \<Longrightarrow> minv K H h M t \<Longrightarrow>
    \<exists>h' t'. chain_loop K H c st (chain_off cs) h M offs = Some (h', offs @ map fst cs) \<and>
       minv K H h' M t' \<and>
       amap K (items t') = amap K (map norm (concat (map snd cs))) ++ amap K (items t)"
proof (induction cs arbitrary: h t offs)
  case Nil
  have "chain_loop K H c st 0 h M offs = Some (h, offs)" by (subst chain_loop.simps) simp
  with Nil show ?case by auto
next
  case (Cons ac cs)
  obtain a its where ac: "ac = (a, its)" by (cases ac)
  from Cons.prems(1) have a0: "a \<noteq> 0" and a: "a + chunk_size c its \<le> length st"
    and ch: "take (chunk_size c its) (drop a st) = chunk_bytes c (chain_off cs) its"
    and n: "chunk_size c its < 2 ^ 24" and p: "chain_off cs < 2 ^ 40"
    and v: "\<forall>x\<in>set its. valid x" and rest: "chain_at c valid st cs"
    by (simp_all add: ac)
  from read_chunk [OF ok Cons.prems(2) v a ch n p] obtain h1 t1 where
    r: "read K H c h M st a = Some (h1, chain_off cs)" and i1: "minv K H h1 M t1" and
    am1: "amap K (items t1) = amap K (map norm its) ++ amap K (items t)" by blast
  from Cons.IH [OF rest i1, of "offs @ [a]"] obtain h' t' where
    l: "chain_loop K H c st (chain_off cs) h1 M (offs @ [a]) = Some (h', (offs @ [a]) @ map fst cs)"
    and i': "minv K H h' M t'" and
    am: "amap K (items t') = amap K (map norm (concat (map snd cs))) ++ amap K (items t1)"
    by blast
  have "chain_loop K H c st (chain_off (ac # cs)) h M offs = Some (h', offs @ map fst (ac # cs))"
    using a0 r l by (subst chain_loop.simps) (simp add: ac)
  moreover have "amap K (items t') =
      amap K (map norm (concat (map snd (ac # cs)))) ++ amap K (items t)"
    using am am1 by (simp add: ac amap_append)
  ultimately show ?case using i' by blast
qed

lemma Get_Freeze [simp]: "Get K H h (Freeze ht) k = Get K H h ht k"
  by (simp add: Get_def Freeze_def)

lemma ReadItemChain_chain:
  assumes ok: "codec_ok c valid norm" and ch: "chain_at c valid st cs"
  shows "\<exists>h' ht'. ReadItemChain K H c h st (chain_off cs) = Some (h', ht', map fst cs) \<and>
           (\<forall>k. Get K H h' ht' k =
              Some (find (\<lambda>x. K x = k) (map norm (concat (map snd cs)))))"
proof -
  let ?z = "\<lparr>root = None, mutable = False, ht_generation = 0\<rparr>"
  from Mutable_empty [of ?z h K H] obtain h1 M t where
    m: "Mutable h ?z = Some (h1, M)" and i: "minv K H h1 M t" and e: "items t = []" by auto
  from chain_loop_merge [OF ok ch i, of "[]"] obtain h' t' where
    l: "chain_loop K H c st (chain_off cs) h1 M [] = Some (h', map fst cs)" and
    i': "minv K H h' M t'" and
    am: "amap K (items t') = amap K (map norm (concat (map snd cs))) ++ amap K (items t)"
    by auto
  have r: "ReadItemChain K H c h st (chain_off cs) = Some (h', Freeze M, map fst cs)"
    using m l by (simp add: ReadItemChain_def)
  have "\<forall>k. Get K H h' (Freeze M) k =
      Some (find (\<lambda>x. K x = k) (map norm (concat (map snd cs))))"
    using Get_snapshot [OF minv_snapshot [OF i']] am e by (simp add: amap_def fun_eq_iff)
  with r show ?thesis by blast
qed

lemma Write_chunk:
  assumes ok: "codec_ok c valid norm" and fe: "ForEach h ht = Some its"
    and ne: "its \<noteq> []" and v: "\<forall>x\<in>set its. valid x"
  shows "Write c h ht st prev (\<lambda>_. True) = Some (st @ chunk_bytes c prev its, length st)"
proof -
  obtain x xs where its: "its = x # xs" using ne by (cases its) auto
  from ok v have "0 < storSize c x" by (simp add: codec_ok_def its)
  then have s0: "sum_list (map (storSize c) its) \<noteq> 0" by (simp add: its)
  have lp: "length (concat (map (itemWrite c) its)) = sum_list (map (storSize c) its)"
    by (rule length_chunk_bytes(1) [OF ok v])
  show ?thesis
    using fe s0 lp
    by (simp add: Write_def Let_def chunk_bytes_def chunk_size_def Put3_def Put5_def
        del: sum_list_eq_0_iff)
qed

lemma chain_at_append:
  "chain_at c valid st cs \<Longrightarrow> chain_at c valid (st @ bs) cs"
  by (induction cs) auto

lemma write_all_chain:
  assumes ok: "codec_ok c valid norm"
  shows "list_all2 (\<lambda>(h, ht) its. ForEach h ht = Some its \<and> its \<noteq> [] \<and> (\<forall>x\<in>set its. valid x) \<and>
                       chunk_size c its < 2 ^ 24) ws iss \<Longrightarrow>
    chain_at c valid st cs \<Longrightarrow> st \<noteq> [] \<Longrightarrow>
    length st + sum_list (map (chunk_size c) iss) < 2 ^ 40 \<Longrightarrow> chain_off cs < 2 ^ 40 \<Longrightarrow>
    \<exists>st' cs'. write_all c st (chain_off cs) ws = Some (st', chain_off cs') \<and>
       chain_at c valid st' cs' \<and> map snd cs' = rev iss @ map snd cs \<and>
       length cs' = length ws + length cs"
proof (induction ws arbitrary: iss st cs)
  case Nil
  then show ?case by auto
next
  case (Cons w ws)
  obtain h ht where w: "w = (h, ht)" by (cases w)
  from Cons.prems(1) obtain its iss' where iss: "iss = its # iss'"
    and fe: "ForEach h ht = Some its" and ne: "its \<noteq> []" and v: "\<forall>x\<in>set its. valid x"
    and n: "chunk_size c its < 2 ^ 24"
    and rest: "list_all2 (\<lambda>(h, ht) its. ForEach h ht = Some its \<and> its \<noteq> [] \<and>
                 (\<forall>x\<in>set its. valid x) \<and> chunk_size c its < 2 ^ 24) ws iss'"
    by (auto simp: w list_all2_Cons1)
  let ?ch = "chunk_bytes c (chain_off cs) its"
  let ?st = "st @ ?ch"
  let ?cs = "(length st, its) # cs"
  have wr: "Write c h ht st (chain_off cs) (\<lambda>_. True) = Some (?st, length st)"
    by (rule Write_chunk [OF ok fe ne v])
  have lc: "length ?ch = chunk_size c its" by (rule length_chunk_bytes(2) [OF ok v])
  have c1: "chain_at c valid ?st ?cs"
    using Cons.prems(2,3,5) lc n v chain_at_append [OF Cons.prems(2), of ?ch] by simp
  have b: "length ?st + sum_list (map (chunk_size c) iss') < 2 ^ 40"
    using Cons.prems(4) lc by (simp add: iss)
  have o: "chain_off ?cs < 2 ^ 40" using Cons.prems(4) by simp
  have ne': "?st \<noteq> []" using Cons.prems(3) by simp
  from Cons.IH [OF rest c1 ne' b o] obtain st' cs' where
    1: "write_all c ?st (chain_off ?cs) ws = Some (st', chain_off cs')"
       "chain_at c valid st' cs'" "map snd cs' = rev iss' @ map snd ?cs"
       "length cs' = length ws + length ?cs" by auto
  have "write_all c st (chain_off cs) (w # ws) = Some (st', chain_off cs')"
    using wr 1(1) by (simp add: w)
  moreover have "map snd cs' = rev iss @ map snd cs" using 1(3) by (simp add: iss)
  moreover have "length cs' = length (w # ws) + length cs" using 1(4) by simp
  ultimately show ?case using 1(2) by blast
qed

lemma write_read_chain:
  assumes ok: "codec_ok c valid norm"
    and ws: "list_all2 (\<lambda>(h, ht) its. ForEach h ht = Some its \<and> its \<noteq> [] \<and>
                (\<forall>x\<in>set its. valid x) \<and> chunk_size c its < 2 ^ 24) ws iss"
    and st: "st \<noteq> []" and b: "length st + sum_list (map (chunk_size c) iss) < 2 ^ 40"
  shows "\<exists>st' off. write_all c st 0 ws = Some (st', off) \<and>
           (\<exists>h' ht' offs. ReadItemChain K H c h st' off = Some (h', ht', offs) \<and>
              length offs = length ws \<and>
              (\<forall>k. Get K H h' ht' k =
                 Some (find (\<lambda>x. K x = k) (map norm (concat (rev iss))))))"
proof -
  have c0: "chain_at c valid st []" by simp
  from write_all_chain [OF ok ws c0 st b] obtain st' cs' where
    1: "write_all c st 0 ws = Some (st', chain_off cs')" "chain_at c valid st' cs'"
       "map snd cs' = rev iss" "length cs' = length ws" by auto
  from ReadItemChain_chain [OF ok 1(2), of K H h] obtain h' ht' where
    2: "ReadItemChain K H c h st' (chain_off cs') = Some (h', ht', map fst cs')"
       "\<forall>k. Get K H h' ht' k = Some (find (\<lambda>x. K x = k) (map norm (concat (map snd cs'))))"
    by blast
  have l: "length (map fst cs') = length ws" using 1(4) by simp
  have g: "\<forall>k. Get K H h' ht' k = Some (find (\<lambda>x. K x = k) (map norm (concat (rev iss))))"
    using 2(2) 1(3) by simp
  show ?thesis using 1(1) 2(1) l g by blast
qed

lemma GetStr_PutStr: "length s < 65536 \<Longrightarrow> GetStr (PutStr s @ r) = Some (s, r)"
  using getN_be [of "length s" 2 "s @ r"] by (simp add: GetStr_def PutStr_def)

lemma Get4_Put4: "0 \<le> n \<Longrightarrow> n < 2 ^ 32 \<Longrightarrow> Get4 (Put4 n @ r) = Some (n, r)"
proof -
  assume n: "0 \<le> n" "n < 2 ^ 32"
  then have "nat (n mod 2 ^ 32) = nat n" by simp
  moreover have "nat n < 256 ^ 4" using n by (simp add: nat_less_iff)
  ultimately show ?thesis using getN_be [of "nat n" 4 r] n by (simp add: Get4_def Put4_def)
qed

lemma Get5_Put5: "n < 2 ^ 40 \<Longrightarrow> Get5 (Put5 n @ r) = Some (n, r)"
  using getN_be [of n 5 r] by (simp add: Get5_def Put5_def)

lemma Get1_Put1: "n < 256 \<Longrightarrow> Get1 (Put1 n @ r) = Some (n, r)"
  using getN_be [of n 1 r] by (simp add: Get1_def Put1_def)

lemma read_overlays_write:
  assumes "\<forall>st ov r. ovRead st (ovWrite ov @ r) = Some (ov, r)"
  shows "read_overlays ovRead st (length ovs) (concat (map ovWrite ovs) @ r) = Some (ovs, r)"
  using assms by (induction ovs) simp_all

lemma ReadInfo_Write:
  assumes "\<forall>st ov r. ovRead st (ovWrite ov @ r) = Some (ov, r)" "Info_valid ti"
  shows "ReadInfo ovRead st (Info_Write ovWrite ti @ r) = Some (persisted ti, r)"
proof -
  from assms(2) have v: "length (Table ti) < 65536" "0 \<le> Nrows ti" "Nrows ti < 2 ^ 32"
    "unat (Size ti) < 2 ^ 40" "length (Indexes ti) < 256"
    by (simp_all add: Info_valid_def)
  let ?r4 = "concat (map ovWrite (Indexes ti)) @ r"
  let ?r3 = "Put1 (length (Indexes ti)) @ ?r4"
  let ?r2 = "Put5 (unat (Size ti)) @ ?r3"
  let ?r1 = "Put4 (Nrows ti) @ ?r2"
  have 0: "Info_Write ovWrite ti @ r = PutStr (Table ti) @ ?r1" by (simp add: Info_Write_def)
  have 1: "GetStr (PutStr (Table ti) @ ?r1) = Some (Table ti, ?r1)"
    by (rule GetStr_PutStr [OF v(1)])
  have 2: "Get4 ?r1 = Some (Nrows ti, ?r2)" by (rule Get4_Put4 [OF v(2,3)])
  have 3: "Get5 ?r2 = Some (unat (Size ti), ?r3)" by (rule Get5_Put5 [OF v(4)])
  have 4: "Get1 ?r3 = Some (length (Indexes ti), ?r4)" by (rule Get1_Put1 [OF v(5)])
  have 5: "read_overlays ovRead st (length (Indexes ti)) ?r4 = Some (Indexes ti, r)"
    by (rule read_overlays_write [OF assms(1)])
  have 6: "\<lparr>Table = Table ti, Nrows = Nrows ti, Size = Size ti, origNrows = 0, origSize = 0,
            Indexes = Indexes ti, lastmod = 0\<rparr> = persisted ti"
    by (cases ti) (simp add: persisted_def)
  show ?thesis by (simp add: ReadInfo_def 0 1 2 3 4 5 6)
qed

lemma InfoCodec_ok:
  assumes "\<forall>bs. length (ck bs) = cklen" "\<forall>ov. length (ovWrite ov) = ovSize ov"
    and "\<forall>st ov r. ovRead st (ovWrite ov @ r) = Some (ov, r)"
  shows "codec_ok (InfoCodec ovSize ovWrite ovRead cklen ck) Info_valid persisted"
proof -
  have l: "\<And>ti. length (Info_Write ovWrite ti) = Info_storSize ovSize ti"
  proof -
    fix ti :: "'a Info"
    have "length (concat (map ovWrite (Indexes ti))) = sum_list (map ovSize (Indexes ti))"
      using assms(2) by (induction "Indexes ti" arbitrary: ti) (simp_all add: length_concat comp_def)
    then show "length (Info_Write ovWrite ti) = Info_storSize ovSize ti"
      by (simp add: Info_Write_def Info_storSize_def PutStr_def Put4_def Put5_def Put1_def)
  qed
  show ?thesis
    using assms(1) l ReadInfo_Write [OF assms(3)]
    by (simp add: codec_ok_def InfoCodec_def Info_storSize_def)
qed

text \<open>
  C7, as amended. Tries of table information are written one after the other, each
  chunk pointing to the one before it, into a store that is not empty (so that no chunk
  is at the offset 0), every record and every size fitting the widths of the chunk
  format. Then \<open>ReadInfoChain\<close> at the last offset returns, with one offset for each
  chunk, a trie in which \<open>Get\<close> of a table name gives the first record with that name
  in the sequence of the records written, the newest chunk first: a record of a newer
  chunk shadows those of the older chunks, and a name that was never written is absent.
  The record returned has the fields \<open>Table\<close>, \<open>Nrows\<close>, \<open>Size\<close> and \<open>Indexes\<close> of the
  record written; \<open>origNrows\<close>, \<open>origSize\<close> and \<open>lastmod\<close> are not written and are zero
  in it.
\<close>

theorem ReadInfoChain_newest_first:
  assumes "\<forall>bs. length (ck bs) = cklen"
    and "\<forall>ov. length (ovWrite ov) = ovSize ov"
    and "\<forall>st ov r. ovRead st (ovWrite ov @ r) = Some (ov, r)"
    and "list_all2 (\<lambda>(h, ht) its. ForEach h ht = Some its \<and> its \<noteq> [] \<and>
            (\<forall>x\<in>set its. Info_valid x) \<and>
            chunk_size (InfoCodec ovSize ovWrite ovRead cklen ck) its < 2 ^ 24) ws iss"
    and "st \<noteq> []"
    and "length st +
           sum_list (map (chunk_size (InfoCodec ovSize ovWrite ovRead cklen ck)) iss) < 2 ^ 40"
  shows "\<exists>st' off. write_all (InfoCodec ovSize ovWrite ovRead cklen ck) st 0 ws = Some (st', off) \<and>
           (\<exists>h' ht' offs.
              ReadInfoChain H (InfoCodec ovSize ovWrite ovRead cklen ck) h st' off =
                Some (h', ht', offs) \<and>
              length offs = length ws \<and>
              (\<forall>k. Get InfoKey H h' ht' k =
                 Some (find (\<lambda>x. Table x = k) (map persisted (concat (rev iss))))))"
  using write_read_chain [OF InfoCodec_ok [OF assms(1,2,3)] assms(4,5,6), of InfoKey H h]
  unfolding ReadInfoChain_def InfoKey_def by simp

lemma info_heaps_built:
  "Mutable [] \<lparr>root = None, mutable = False, ht_generation = 0\<rparr> = Some (info_heap0, info_tbl) \<and>
   run_ops InfoKey first_byte_hash info_heap0 info_tbl [PutOp info_one, PutOp info_two] =
     Some info_heap_old \<and>
   run_ops InfoKey first_byte_hash info_heap0 info_tbl [PutOp info_one_new] = Some info_heap_new"
  by code_simp

text \<open>The record \<open>info_one_new\<close> carries a \<open>lastmod\<close>, an \<open>origNrows\<close> and an \<open>origSize\<close>
  that are not zero. Written and read back as in \<open>TestInfo\<close>, the record that \<open>Get\<close>
  returns is not equal to it.\<close>

theorem TestInfo_record_differs:
  "ForEach info_heap_new info_tbl = Some [info_one_new] \<and>
   TestInfo first_byte_hash byte_codec info_heap_new info_tbl [111, 110, 101] =
     Some (Some \<lparr>Table = [111, 110, 101], Nrows = 101, Size = 1010, origNrows = 0,
                  origSize = 0, Indexes = [7], lastmod = 0\<rparr>) \<and>
   \<lparr>Table = [111, 110, 101], Nrows = 101, Size = 1010, origNrows = 0,
     origSize = 0, Indexes = [7], lastmod = 0\<rparr> \<noteq> info_one_new"
  by code_simp

text \<open>Two chunks: the table of \<open>TestInfo\<close>, and after it a newer record for the table
  \<open>one\<close>.\<close>

theorem ReadInfoChain_newest_first_witness:
  "(\<forall>bs. length (sum_cksum bs) = 1) \<and>
   (\<forall>ov. length (byte_ovWrite ov) = byte_ovSize ov) \<and>
   (\<forall>st ov r. byte_ovRead st (byte_ovWrite ov @ r) = Some (ov, r)) \<and>
   list_all2 (\<lambda>(h, ht) its. ForEach h ht = Some its \<and> its \<noteq> [] \<and>
       (\<forall>x\<in>set its. Info_valid x) \<and>
       chunk_size (InfoCodec byte_ovSize byte_ovWrite byte_ovRead 1 sum_cksum) its < 2 ^ 24)
     [(info_heap_old, info_tbl), (info_heap_new, info_tbl)]
     [[info_one, info_two], [info_one_new]] \<and>
   [0 :: byte] \<noteq> [] \<and>
   length [0 :: byte] +
     sum_list (map (chunk_size (InfoCodec byte_ovSize byte_ovWrite byte_ovRead 1 sum_cksum))
                 [[info_one, info_two], [info_one_new]]) < 2 ^ 40 \<and>
   (\<exists>st' off.
      write_all (InfoCodec byte_ovSize byte_ovWrite byte_ovRead 1 sum_cksum) [0] 0
        [(info_heap_old, info_tbl), (info_heap_new, info_tbl)] = Some (st', off) \<and>
      (\<exists>h' ht' offs.
         ReadInfoChain first_byte_hash (InfoCodec byte_ovSize byte_ovWrite byte_ovRead 1 sum_cksum)
           [] st' off = Some (h', ht', offs) \<and>
         length offs = length [(info_heap_old, info_tbl), (info_heap_new, info_tbl)] \<and>
         (\<forall>k. Get InfoKey first_byte_hash h' ht' k =
            Some (find (\<lambda>x. Table x = k)
                    (map persisted (concat (rev [[info_one, info_two], [info_one_new]])))))))"
proof -
  have 1: "\<forall>bs. length (sum_cksum bs) = 1" by (simp add: sum_cksum_def)
  have 2: "\<forall>ov. length (byte_ovWrite ov) = byte_ovSize ov"
    by (simp add: byte_ovWrite_def byte_ovSize_def)
  have 3: "\<forall>st ov r. byte_ovRead st (byte_ovWrite ov @ r) = Some (ov, r)"
    by (simp add: byte_ovRead_def byte_ovWrite_def)
  have f1: "ForEach info_heap_old info_tbl = Some [info_one, info_two]" by code_simp
  have f2: "ForEach info_heap_new info_tbl = Some [info_one_new]" by code_simp
  have v: "Info_valid info_one" "Info_valid info_two" "Info_valid info_one_new"
    by (simp_all add: Info_valid_def info_one_def info_two_def info_one_new_def)
  have n: "chunk_size (InfoCodec byte_ovSize byte_ovWrite byte_ovRead 1 sum_cksum)
             [info_one, info_two] = 39"
    "chunk_size (InfoCodec byte_ovSize byte_ovWrite byte_ovRead 1 sum_cksum) [info_one_new] = 25"
    by (simp_all add: chunk_size_def InfoCodec_def Info_storSize_def byte_ovSize_def
        info_one_def info_two_def info_one_new_def)
  have 4: "list_all2 (\<lambda>(h, ht) its. ForEach h ht = Some its \<and> its \<noteq> [] \<and>
       (\<forall>x\<in>set its. Info_valid x) \<and>
       chunk_size (InfoCodec byte_ovSize byte_ovWrite byte_ovRead 1 sum_cksum) its < 2 ^ 24)
     [(info_heap_old, info_tbl), (info_heap_new, info_tbl)]
     [[info_one, info_two], [info_one_new]]"
    using f1 f2 v n by simp
  have 5: "[0 :: byte] \<noteq> []" by simp
  have 6: "length [0 :: byte] +
     sum_list (map (chunk_size (InfoCodec byte_ovSize byte_ovWrite byte_ovRead 1 sum_cksum))
                 [[info_one, info_two], [info_one_new]]) < 2 ^ 40"
    using n by simp
  show ?thesis
    using 1 2 3 4 5 6 ReadInfoChain_newest_first [OF 1 2 3 4 5 6, of first_byte_hash "[]"]
    by blast
qed

section \<open>Index keys: properties\<close>

lemma escape_Nil_iff [simp]: "escape f = [] \<longleftrightarrow> f = []"
  by (cases f) auto

lemma join_fields_Nil_iff: "join_fields fs = [] \<longleftrightarrow> (\<forall>g\<in>set fs. g = [])"
  by (induction fs) auto

lemma join_fields_Cons: "join_fields (f # fs) = escape f @ rest_fields fs"
  by (simp add: rest_fields_def)

lemma sep_rest_fields: "sep (rest_fields fs)"
  by (simp add: sep_def rest_fields_def)

lemma append_less_same: "(zs @ xs < zs @ ys) = (xs < (ys :: 8 word list))"
  by (induction zs) simp_all

lemma sep_less_byte: "sep s \<Longrightarrow> s < escape (b # y) @ t"
proof -
  assume "sep s"
  then consider "s = []" | r where "s = 0 # 0 # r" by (auto simp: sep_def)
  then show ?thesis
  proof cases
    case 1
    then show ?thesis by simp
  next
    case 2
    then show ?thesis by (simp add: word_gt_0)
  qed
qed

lemma byte_not_less_sep: "sep s \<Longrightarrow> \<not> escape (b # y) @ t < s"
proof -
  assume "sep s"
  from sep_less_byte [OF this, of b y t] show ?thesis by (simp add: less_not_sym)
qed

lemma escape_less:
  "x \<noteq> y \<Longrightarrow> sep s \<Longrightarrow> sep t \<Longrightarrow> (escape x @ s < escape y @ t) = (x < y)"
proof (induction x arbitrary: y)
  case Nil
  then obtain b y' where y: "y = b # y'" by (cases y) auto
  show ?case using sep_less_byte [OF Nil.prems(2), of b y' t] by (simp add: y del: escape.simps(2))
next
  case (Cons a x)
  show ?case
  proof (cases y)
    case Nil
    show ?thesis
      using byte_not_less_sep [OF Cons.prems(3), of a x s] by (simp add: Nil del: escape.simps(2))
  next
    case (Cons b y')
    show ?thesis
    proof (cases "a = b")
      case True
      with Cons.prems(1) Cons have "x \<noteq> y'" by simp
      from Cons.IH [OF this Cons.prems(2,3)] show ?thesis by (simp add: Cons True)
    next
      case False
      then show ?thesis by (auto simp: Cons word_gt_0)
    qed
  qed
qed

lemma rest_fields_less:
  "(join_fields xs < join_fields ys) = r \<Longrightarrow> (rest_fields xs < rest_fields ys) = r"
proof -
  assume a: "(join_fields xs < join_fields ys) = r"
  show ?thesis
  proof (cases "\<forall>g\<in>set xs. g = []")
    case True
    then have x: "join_fields xs = []" "rest_fields xs = []"
      by (simp_all add: join_fields_Nil_iff rest_fields_def)
    show ?thesis
    proof (cases "\<forall>g\<in>set ys. g = []")
      case True
      then have "join_fields ys = []" "rest_fields ys = []"
        by (simp_all add: join_fields_Nil_iff rest_fields_def)
      with a x show ?thesis by simp
    next
      case False
      then have "join_fields ys \<noteq> []" "rest_fields ys = 0 # 0 # join_fields ys"
        by (simp_all add: join_fields_Nil_iff rest_fields_def)
      with a x show ?thesis by (cases "join_fields ys") auto
    qed
  next
    case False
    then have x: "rest_fields xs = 0 # 0 # join_fields xs" by (simp add: rest_fields_def)
    show ?thesis
    proof (cases "\<forall>g\<in>set ys. g = []")
      case True
      then have "join_fields ys = []" "rest_fields ys = []"
        by (simp_all add: join_fields_Nil_iff rest_fields_def)
      with a x show ?thesis by auto
    next
      case False
      then have "rest_fields ys = 0 # 0 # join_fields ys" by (simp add: rest_fields_def)
      with a x show ?thesis by simp
    qed
  qed
qed

lemma join_fields_order:
  "length xs = length ys \<Longrightarrow> (join_fields xs < join_fields ys) = lt xs ys"
proof (induction xs ys rule: list_induct2)
  case Nil
  show ?case by simp
next
  case (Cons x xs y ys)
  show ?case
  proof (cases "x = y")
    case True
    have "(join_fields (x # xs) < join_fields (y # ys)) = (rest_fields xs < rest_fields ys)"
      unfolding join_fields_Cons True by (rule append_less_same)
    also have "\<dots> = lt xs ys" by (rule rest_fields_less [OF Cons.IH])
    finally show ?thesis by (simp add: True)
  next
    case False
    have "(join_fields (x # xs) < join_fields (y # ys)) = (x < y)"
      unfolding join_fields_Cons by (rule escape_less [OF False sep_rest_fields sep_rest_fields])
    then show ?thesis using False by simp
  qed
qed

lemma map_GetRaw_upt: "length rec = n \<Longrightarrow> map (GetRaw rec) [0..<n] = rec"
  by (auto simp: GetRaw_def intro: nth_equalityI)

lemma lt_total: "length x = length y \<Longrightarrow> \<not> lt x y \<Longrightarrow> \<not> lt y x \<Longrightarrow> x = y"
proof (induction x y rule: list_induct2)
  case Nil
  show ?case by simp
next
  case (Cons a x b y)
  show ?case
  proof (cases "a = b")
    case True
    with Cons show ?thesis by simp
  next
    case False
    with Cons.prems show ?thesis by (auto split: if_splits)
  qed
qed

lemma lt_irrefl: "\<not> lt x x"
  by (induction x) simp_all

lemma Key_order:
  assumes "length x = n" "length y = n"
  shows "(Key [0..<n] x < Key [0..<n] y) = lt x y"
proof (cases "n = 1")
  case True
  with assms obtain a b where "x = [a]" "y = [b]" by (auto simp: length_Suc_conv)
  then show ?thesis using True by (simp add: Key_def GetRaw_def)
next
  case False
  then show ?thesis
    using join_fields_order [of x y] assms map_GetRaw_upt [OF assms(1)] map_GetRaw_upt [OF assms(2)]
    by (simp add: Key_def)
qed

text \<open>The model on the assertions of \<open>TestKey\<close> that have no \<open>Fields2\<close>.\<close>

lemma TestKey_without_Fields2:
  "Key [0] [[97, 0, 98]] = [97, 0, 98]"
  "Key [] [[97], [98]] = []"
  "Key [0] [[97], [98]] = [97]"
  "Key [1] [[97], [98]] = [98]"
  "Key [0, 1] [[97], [98]] = [97, 0, 0, 98]"
  "Key [1, 0] [[97], [98]] = [98, 0, 0, 97]"
  "Key [0, 1, 2] [[97], [98], [99]] = [97, 0, 0, 98, 0, 0, 99]"
  "Key [0, 1, 2] [[97], [], [99]] = [97, 0, 0, 0, 0, 99]"
  "Key [0, 1, 2] [[], [], [99]] = [0, 0, 0, 0, 99]"
  "Key [0, 1, 2] [[97], [98], []] = [97, 0, 0, 98]"
  "Key [0, 1, 2] [[97], [], []] = [97]"
  "Key [0, 1] [[97, 98]] = [97, 98]"
  "Key [0, 1] [[97, 0, 98]] = [97, 0, 1, 98]"
  "Key [0, 1] [[0, 97, 98]] = [0, 1, 97, 98]"
  "Key [0, 1] [[97, 0, 0, 98]] = [97, 0, 1, 0, 1, 98]"
  "Key [0, 1] [[97, 0, 1, 98]] = [97, 0, 1, 1, 98]"
  "Key [0, 1] [[97, 98, 0]] = [97, 98, 0, 1]"
  "Key [0, 1, 2] [[], [], []] = []"
  by (simp_all add: Key_def GetRaw_def)

text \<open>
  C6, as amended. For two records that have just the fields of the index, in the order
  of the index, the order of the encoded keys as sequences of bytes is the field-wise
  order \<open>lt\<close> of the records, and the keys are equal only for equal records: sorting
  the records and sorting their keys give the same order.
\<close>

theorem Key_order_is_field_order:
  assumes "length x = n" "length y = n"
  shows "(Key [0..<n] x < Key [0..<n] y) = lt x y \<and> (Key [0..<n] x = Key [0..<n] y) = (x = y)"
proof -
  have 1: "(Key [0..<n] x < Key [0..<n] y) = lt x y" by (rule Key_order [OF assms])
  have 2: "(Key [0..<n] y < Key [0..<n] x) = lt y x" by (rule Key_order [OF assms(2,1)])
  have "(Key [0..<n] x = Key [0..<n] y) = (x = y)"
  proof
    assume e: "Key [0..<n] x = Key [0..<n] y"
    then have "\<not> lt x y" "\<not> lt y x" using 1 2 by simp_all
    then show "x = y" using lt_total [of x y] assms by simp
  next
    assume "x = y"
    then show "Key [0..<n] x = Key [0..<n] y" by simp
  qed
  with 1 show ?thesis by simp
qed

text \<open>Two records of three fields that differ in the second.\<close>

theorem Key_order_is_field_order_witness:
  "length [[97], [], [99 :: 8 word]] = 3 \<and> length [[97], [0], [] :: 8 word list] = 3 \<and>
   (Key [0..<3] [[97], [], [99]] < Key [0..<3] [[97], [0], []]) = lt [[97], [], [99]] [[97], [0], []] \<and>
   (Key [0..<3] [[97], [], [99]] = Key [0..<3] [[97], [0], []]) =
     ([[97], [], [99]] = [[97], [0], [] :: 8 word list]) \<and>
   lt [[97], [], [99]] [[97], [0], []]"
  using Key_order_is_field_order [of "[[97], [], [99]]" 3 "[[97], [0], []]"] by simp

text \<open>
  A record of one field and the record with an empty second field after it have the
  same key under an index of two fields, and \<open>lt\<close> puts the shorter one first; under an
  index that names the fields in another order than the record, the keys are in the
  order of the index and not of the records.
\<close>

theorem Key_order_differs:
  "lt [[97]] [[97], []] \<and> \<not> Key [0, 1] [[97]] < Key [0, 1] [[97], []] \<and>
   lt [[97], [122]] [[98], [121]] \<and> \<not> Key [1, 0] [[97], [122]] < Key [1, 0] [[98], [121]]"
  by (simp add: Key_def GetRaw_def)

end
